theory Spec2Isabelle
  imports Complex_Main "HOL-Library.Multiset"
begin

section \<open>Data model\<close>

text \<open>
  The forum client of \<^verbatim>\<open>frontend/src/App.tsx\<close> and its two sibling variants. A reply as the
  type \<^verbatim>\<open>Reply\<close> declares it. The field \<^verbatim>\<open>id\<close> is named \<open>reply_id\<close> here, because \<open>id\<close>
  is the identity function of HOL. \<open>created_at\<close> holds the instant that
  \<^verbatim>\<open>+new Date(reply.created_at)\<close> evaluates to, in milliseconds: the only use the tree builder
  makes of the date string. A date string that does not parse (\<^verbatim>\<open>NaN\<close>) is outside the model.
\<close>

record reply =
  reply_id :: int
  thread_id :: int
  parent_id :: "int option"
  body :: string
  author_name :: "string option"
  is_anonymous :: bool
  created_at :: int

text \<open>
  A property key of a JavaScript object. \<open>Idx n\<close> is the key \<^verbatim>\<open>String(n)\<close> of an integer \<open>n\<close>,
  \<open>Name s\<close> any other string \<open>s\<close>. \<^verbatim>\<open>String\<close> is injective on integers and never yields
  \<^verbatim>\<open>"root"\<close>, which is all the grouping relies on.
\<close>

datatype pkey = Idx int | Name string

section \<open>Thread/reply tree builder\<close>

text \<open>\<^verbatim>\<open>String(reply.parent_id ?? "root")\<close>\<close>

definition groupKey :: "int option \<Rightarrow> pkey" where
  "groupKey parentId = (case parentId of None \<Rightarrow> Name ''root'' | Some n \<Rightarrow> Idx n)"

text \<open>
  \<^verbatim>\<open>Array.prototype.sort\<close> with a comparator: the sort is stable (ECMAScript 2019), and for a
  comparator that is a total preorder the stable sorted arrangement is unique, so the insertion
  sort below computes what every conforming engine does.
\<close>

fun insertBy :: "('a \<Rightarrow> 'a \<Rightarrow> int) \<Rightarrow> 'a \<Rightarrow> 'a list \<Rightarrow> 'a list" where
  "insertBy cmp x [] = [x]"
| "insertBy cmp x (y # ys) = (if cmp x y \<le> 0 then x # y # ys else y # insertBy cmp x ys)"

definition sortBy :: "('a \<Rightarrow> 'a \<Rightarrow> int) \<Rightarrow> 'a list \<Rightarrow> 'a list" where
  "sortBy cmp xs = foldr (insertBy cmp) xs []"

text \<open>\<^verbatim>\<open>(a, b) => +new Date(a.created_at) - +new Date(b.created_at)\<close>\<close>

definition byCreatedAt :: "reply \<Rightarrow> reply \<Rightarrow> int" where
  "byCreatedAt a b = created_at a - created_at b"

text \<open>
  The first loop of \<^verbatim>\<open>repliesByParent\<close>:
  \<^verbatim>\<open>grouped[key] = grouped[key] || []; grouped[key].push(reply)\<close>.
  The object \<^verbatim>\<open>grouped\<close> is only read by key, so it is a map.
\<close>

fun groupLoop :: "reply list \<Rightarrow> (pkey \<rightharpoonup> reply list) \<Rightarrow> (pkey \<rightharpoonup> reply list)" where
  "groupLoop [] grouped = grouped"
| "groupLoop (reply # rest) grouped =
     (let key = groupKey (parent_id reply);
          arr = (case grouped key of None \<Rightarrow> [] | Some xs \<Rightarrow> xs)
      in groupLoop rest (grouped(key \<mapsto> arr @ [reply])))"

text \<open>The second loop sorts the array under every key in place.\<close>

definition repliesByParent :: "reply list \<Rightarrow> (pkey \<rightharpoonup> reply list)" where
  "repliesByParent replies =
     (\<lambda>key. map_option (sortBy byCreatedAt) (groupLoop replies Map.empty key))"

text \<open>\<^verbatim>\<open>repliesByParent[key] || []\<close>: an array is truthy, also when empty.\<close>

definition children :: "(pkey \<rightharpoonup> reply list) \<Rightarrow> int option \<Rightarrow> reply list" where
  "children grouped parentId =
     (case grouped (groupKey parentId) of None \<Rightarrow> [] | Some xs \<Rightarrow> xs)"

text \<open>
  The \<^verbatim>\<open>div\<close> that \<^verbatim>\<open>renderReplies\<close> makes for one reply: the reply it shows, the depth that
  sets its left margin (\<^verbatim>\<open>depth * 16\<close> pixels), and the nested elements of the recursive call.
\<close>

datatype element = Div reply nat "element list"

text \<open>
  \<^verbatim>\<open>renderReplies(parentId, depth)\<close>. The recursion follows the data and need not end, so the
  function takes the number of nested calls the stack allows: \<open>None\<close> is a run that exceeds it
  and does not return a value.
\<close>

fun renderReplies ::
  "nat \<Rightarrow> (pkey \<rightharpoonup> reply list) \<Rightarrow> int option \<Rightarrow> nat \<Rightarrow> element list option" where
  "renderReplies 0 grouped parentId depth = None"
| "renderReplies (Suc fuel) grouped parentId depth =
     those (map (\<lambda>reply. map_option (Div reply depth)
                   (renderReplies fuel grouped (Some (reply_id reply)) (depth + 1)))
                (children grouped parentId))"

text \<open>The elements in document order, each with its depth: the rendering sequence.\<close>

fun flatten :: "element \<Rightarrow> (reply \<times> nat) list" where
  "flatten (Div reply depth nested) = (reply, depth) # concat (map flatten nested)"

text \<open>\<^verbatim>\<open>renderReplies(null, 0)\<close> of a thread's replies, as a sequence.\<close>

definition renderThread :: "nat \<Rightarrow> reply list \<Rightarrow> (reply \<times> nat) list option" where
  "renderThread fuel replies =
     map_option (\<lambda>es. concat (map flatten es))
       (renderReplies fuel (repliesByParent replies) None 0)"

section \<open>Author line\<close>

text \<open>\<^verbatim>\<open>formatAuthor(name, isAnonymous)\<close>; \<^verbatim>\<open>name || "Unknown"\<close> takes the name unless it is
  \<^verbatim>\<open>null\<close> or empty.\<close>

definition formatAuthor :: "string option \<Rightarrow> bool \<Rightarrow> string" where
  "formatAuthor name isAnonymous =
     (if isAnonymous then ''Anonymous''
      else (case name of None \<Rightarrow> ''Unknown'' | Some n \<Rightarrow> if n = [] then ''Unknown'' else n))"

section \<open>Ownership and session store\<close>

text \<open>
  A thread as the type \<^verbatim>\<open>Thread\<close> declares it; the fields carry the prefix \<open>t_\<close> to keep them
  apart from those of a reply.
\<close>

record thread =
  t_id :: int
  t_title :: string
  t_body :: string
  t_author_name :: "string option"
  t_is_anonymous :: bool
  t_created_at :: int
  t_replies :: "reply list"

text \<open>
  Values as they are at run time. What is read back from \<^verbatim>\<open>localStorage\<close> is only cast to its
  TypeScript type, never checked, so the token maps and the stored user hold JSON values.
  \<open>JNull\<close> is also \<^verbatim>\<open>null\<close>; \<open>JNum\<close> holds the value of a number, which in JSON text is finite.
  An object is the list of its own properties in the order \<^verbatim>\<open>Object.entries\<close> and
  \<^verbatim>\<open>JSON.stringify\<close> enumerate them.
\<close>

datatype json =
    JNull
  | JBool bool
  | JNum rat
  | JStr string
  | JArr "json list"
  | JObj "(pkey \<times> json) list"

type_synonym obj = "(pkey \<times> json) list"

text \<open>\<^verbatim>\<open>Boolean(v)\<close> of a value, and of a property read that may be \<^verbatim>\<open>undefined\<close>.\<close>

fun truthy :: "json \<Rightarrow> bool" where
  "truthy JNull = False"
| "truthy (JBool b) = b"
| "truthy (JNum q) = (q \<noteq> 0)"
| "truthy (JStr s) = (s \<noteq> [])"
| "truthy (JArr xs) = True"
| "truthy (JObj kvs) = True"

definition truthyProp :: "json option \<Rightarrow> bool" where
  "truthyProp v = (case v of None \<Rightarrow> False | Some x \<Rightarrow> truthy x)"

text \<open>Truthiness of a \<^verbatim>\<open>string | null\<close>.\<close>

definition truthyStr :: "string option \<Rightarrow> bool" where
  "truthyStr s = (case s of None \<Rightarrow> False | Some x \<Rightarrow> x \<noteq> [])"

text \<open>\<^verbatim>\<open>o[k]\<close>\<close>

definition objGet :: "obj \<Rightarrow> pkey \<Rightarrow> json option" where
  "objGet kvs k = map_of kvs k"

text \<open>
  Where a new property goes in the enumeration order: array indices (integers from 0 below
  \<open>2\<^sup>3\<^sup>2 - 1\<close>) come first, ascending, every other key after them in order of creation.
\<close>

definition isArrayIndex :: "pkey \<Rightarrow> bool" where
  "isArrayIndex k = (case k of Idx n \<Rightarrow> 0 \<le> n \<and> n < 4294967295 | Name s \<Rightarrow> False)"

definition goesBefore :: "pkey \<Rightarrow> pkey \<Rightarrow> bool" where
  "goesBefore k k' =
     (case k of
        Idx n \<Rightarrow> isArrayIndex k \<and> (case k' of Idx n' \<Rightarrow> \<not> isArrayIndex k' \<or> n < n' | Name s \<Rightarrow> True)
      | Name s \<Rightarrow> False)"

fun insertKey :: "pkey \<Rightarrow> json \<Rightarrow> obj \<Rightarrow> obj" where
  "insertKey k v [] = [(k, v)]"
| "insertKey k v ((k', v') # kvs) =
     (if goesBefore k k' then (k, v) # (k', v') # kvs else (k', v') # insertKey k v kvs)"

text \<open>\<^verbatim>\<open>{ ...o, [k]: v }\<close>, and one step of \<^verbatim>\<open>Object.fromEntries\<close>.\<close>

definition objSet :: "obj \<Rightarrow> pkey \<Rightarrow> json \<Rightarrow> obj" where
  "objSet kvs k v =
     (if k \<in> fst ` set kvs then map (\<lambda>(k', v'). if k' = k then (k', v) else (k', v')) kvs
      else insertKey k v kvs)"

text \<open>\<^verbatim>\<open>const next = { ...o }; delete next[k]\<close>\<close>

definition objDelete :: "obj \<Rightarrow> pkey \<Rightarrow> obj" where
  "objDelete kvs k = filter (\<lambda>(k', v'). k' \<noteq> k) kvs"

datatype exn = SyntaxError | TypeError

text \<open>
  \<^verbatim>\<open>Object.entries(v)\<close>: it throws on \<^verbatim>\<open>null\<close>, lists nothing for a number or a boolean, the
  characters of a string and the elements of an array under their indices, and the properties
  of an object.
\<close>

fun entries :: "json \<Rightarrow> exn + (pkey \<times> json) list" where
  "entries JNull = Inl TypeError"
| "entries (JBool b) = Inr []"
| "entries (JNum q) = Inr []"
| "entries (JStr s) = Inr (map (\<lambda>(i, c). (Idx (int i), JStr [c])) (enumerate 0 s))"
| "entries (JArr xs) = Inr (map (\<lambda>(i, x). (Idx (int i), x)) (enumerate 0 xs))"
| "entries (JObj kvs) = Inr kvs"

definition fromEntries :: "(pkey \<times> json) list \<Rightarrow> obj" where
  "fromEntries es = foldl (\<lambda>acc (k, v). objSet acc k v) [] es"

text \<open>
  \<^verbatim>\<open>Number(id)\<close> of a property key, used as a key again. On the key of an integer it is that
  integer. What \<^verbatim>\<open>Number\<close> makes of any other string (\<^verbatim>\<open>NaN\<close> for most) is the parameter
  \<open>toNumber\<close>, which gives the key of the resulting number.
\<close>

definition numberKey :: "(string \<Rightarrow> pkey) \<Rightarrow> pkey \<Rightarrow> pkey" where
  "numberKey toNumber k = (case k of Idx n \<Rightarrow> Idx n | Name s \<Rightarrow> toNumber s)"

text \<open>
  A string held by \<^verbatim>\<open>localStorage\<close>, as \<^verbatim>\<open>JSON.parse\<close> sees it: \<open>JsonText v\<close> is a text that
  parses to \<open>v\<close> (it is never empty), \<open>NotJson s\<close> a string \<open>s\<close> on which \<^verbatim>\<open>JSON.parse\<close>
  throws, the empty string among them. \<^verbatim>\<open>JSON.stringify(v)\<close> is then \<open>JsonText v\<close>.
\<close>

datatype item = NotJson string | JsonText json

text \<open>
  The four keys of \<^verbatim>\<open>localStorage\<close> the store uses; \<open>None\<close> is a key that is not set. The
  bearer token is stored and read as a plain string.
\<close>

record storage =
  threadTokenItem :: "item option"
  replyTokenItem :: "item option"
  authTokenItem :: "string option"
  authUserItem :: "item option"

text \<open>The body of the \<^verbatim>\<open>try\<close> block of \<^verbatim>\<open>readTokenMap\<close>, and the function with its \<^verbatim>\<open>catch\<close>.\<close>

definition readTokenMap_try :: "(string \<Rightarrow> pkey) \<Rightarrow> item option \<Rightarrow> exn + obj" where
  "readTokenMap_try toNumber raw =
     (case raw of
        None \<Rightarrow> Inr []
      | Some (NotJson s) \<Rightarrow> if s = [] then Inr [] else Inl SyntaxError
      | Some (JsonText parsed) \<Rightarrow>
          (case entries parsed of
             Inl e \<Rightarrow> Inl e
           | Inr es \<Rightarrow> Inr (fromEntries (map (\<lambda>(id, token). (numberKey toNumber id, token)) es))))"

definition readTokenMap :: "(string \<Rightarrow> pkey) \<Rightarrow> item option \<Rightarrow> exn + obj" where
  "readTokenMap toNumber raw =
     (case readTokenMap_try toNumber raw of Inl e \<Rightarrow> Inr [] | Inr m \<Rightarrow> Inr m)"

definition readStoredAuthUser_try :: "item option \<Rightarrow> exn + json" where
  "readStoredAuthUser_try raw =
     (case raw of
        None \<Rightarrow> Inr JNull
      | Some (NotJson s) \<Rightarrow> if s = [] then Inr JNull else Inl SyntaxError
      | Some (JsonText parsed) \<Rightarrow> Inr parsed)"

definition readStoredAuthUser :: "item option \<Rightarrow> exn + json" where
  "readStoredAuthUser raw =
     (case readStoredAuthUser_try raw of Inl e \<Rightarrow> Inr JNull | Inr u \<Rightarrow> Inr u)"

text \<open>
  The state of \<^verbatim>\<open>App\<close> that the store and the handlers touch. The form fields and the theme
  are left out: no handler below reads them to decide what it does to tokens or session.
\<close>

record app =
  threads :: "thread list"
  loading :: bool
  error :: "string option"
  threadTokens :: obj
  replyTokens :: obj
  authToken :: "string option"
  authUser :: json

text \<open>The initial state, from the \<^verbatim>\<open>useState\<close> initialisers; an exception of one of them
  would be an exception of the first render.\<close>

definition initialState :: "(string \<Rightarrow> pkey) \<Rightarrow> storage \<Rightarrow> exn + app" where
  "initialState toNumber store =
     (case readTokenMap toNumber (threadTokenItem store) of
        Inl e \<Rightarrow> Inl e
      | Inr tt \<Rightarrow>
     (case readTokenMap toNumber (replyTokenItem store) of
        Inl e \<Rightarrow> Inl e
      | Inr rt \<Rightarrow>
     (case readStoredAuthUser (authUserItem store) of
        Inl e \<Rightarrow> Inl e
      | Inr u \<Rightarrow>
          Inr \<lparr>threads = [], loading = False, error = None, threadTokens = tt,
               replyTokens = rt, authToken = authTokenItem store, authUser = u\<rparr>)))"

text \<open>The four \<^verbatim>\<open>useEffect\<close> hooks that write tokens and session back after a render.\<close>

definition persist :: "app \<Rightarrow> storage \<Rightarrow> storage" where
  "persist st store =
     store\<lparr>threadTokenItem := Some (JsonText (JObj (threadTokens st))),
           replyTokenItem := Some (JsonText (JObj (replyTokens st))),
           authTokenItem := (if truthyStr (authToken st) then authToken st else None),
           authUserItem := (if truthy (authUser st) then Some (JsonText (authUser st)) else None)\<rparr>"

text \<open>\<^verbatim>\<open>const isAuthed = Boolean(authToken && authUser)\<close>\<close>

definition isAuthed :: "app \<Rightarrow> bool" where
  "isAuthed st \<longleftrightarrow> truthyStr (authToken st) \<and> truthy (authUser st)"

text \<open>The props \<^verbatim>\<open>canDeleteThread\<close> and \<^verbatim>\<open>canDeleteReply\<close> as \<^verbatim>\<open>App.tsx\<close> computes them.\<close>

definition canDeleteThread :: "app \<Rightarrow> int \<Rightarrow> bool" where
  "canDeleteThread st threadId \<longleftrightarrow> truthyProp (objGet (threadTokens st) (Idx threadId)) \<and> isAuthed st"

definition canDeleteReply :: "app \<Rightarrow> int \<Rightarrow> bool" where
  "canDeleteReply st replyId \<longleftrightarrow> truthyProp (objGet (replyTokens st) (Idx replyId)) \<and> isAuthed st"

text \<open>
  The same props in the variant without accounts (its sign-in form is a demo and it keeps no
  session): \<^verbatim>\<open>Boolean(threadTokens[thread.id])\<close> and \<^verbatim>\<open>Boolean(replyTokens[replyId])\<close>.
\<close>

definition canDeleteThread_anon :: "obj \<Rightarrow> int \<Rightarrow> bool" where
  "canDeleteThread_anon tokens threadId \<longleftrightarrow> truthyProp (objGet tokens (Idx threadId))"

definition canDeleteReply_anon :: "obj \<Rightarrow> int \<Rightarrow> bool" where
  "canDeleteReply_anon tokens replyId \<longleftrightarrow> truthyProp (objGet tokens (Idx replyId))"

section \<open>Handlers\<close>

text \<open>
  What a \<^verbatim>\<open>fetch\<close> and the reading of its body come to: the promise rejects with an error of
  the given message (a transport error), the response is not \<^verbatim>\<open>ok\<close>, or it is \<^verbatim>\<open>ok\<close> and
  \<^verbatim>\<open>response.json()\<close> yields a value or rejects with an error of the given message.
\<close>

datatype 'a response = NetworkError string | NotOk | OkJson 'a | OkNoJson string

text \<open>The requests a handler sends, with the header that authorises each.\<close>

datatype request =
    GetThreads
  | PostThread string string
  | PostReply int string string
  | DeleteThread int json
  | DeleteReply int int json

text \<open>The fields of a create response that the handlers read.\<close>

record created =
  created_id :: int
  created_owner_token :: "string option"

text \<open>\<^verbatim>\<open>loadThreads()\<close>: it catches every error itself.\<close>

definition loadThreads :: "thread list response \<Rightarrow> app \<Rightarrow> app \<times> request list" where
  "loadThreads resp st =
     (let st1 = st\<lparr>loading := True, error := None\<rparr>;
          st2 = (case resp of
                   NetworkError msg \<Rightarrow> st1\<lparr>error := Some msg\<rparr>
                 | NotOk \<Rightarrow> st1\<lparr>error := Some ''Could not load threads.''\<rparr>
                 | OkJson data \<Rightarrow> st1\<lparr>threads := data\<rparr>
                 | OkNoJson msg \<Rightarrow> st1\<lparr>error := Some msg\<rparr>)
      in (st2\<lparr>loading := False\<rparr>, [GetThreads]))"

text \<open>The header value \<^verbatim>\<open>`Bearer ${authToken}`\<close>.\<close>

definition bearer :: "string option \<Rightarrow> string" where
  "bearer token = ''Bearer '' @ (case token of None \<Rightarrow> ''null'' | Some t \<Rightarrow> t)"

text \<open>\<^verbatim>\<open>created.owner_token || ownerToken\<close>\<close>

definition tokenOf :: "created \<Rightarrow> string \<Rightarrow> string" where
  "tokenOf c ownerToken =
     (case created_owner_token c of None \<Rightarrow> ownerToken | Some t \<Rightarrow> if t = [] then ownerToken else t)"

text \<open>
  \<^verbatim>\<open>handleCreateThread\<close> of \<^verbatim>\<open>App.tsx\<close>. \<open>ownerToken\<close> is what \<^verbatim>\<open>generateOwnerToken()\<close>
  returns, \<open>resp\<close> the outcome of the \<^verbatim>\<open>POST\<close>, \<open>reload\<close> that of the \<^verbatim>\<open>loadThreads\<close> after it.
  The result is the state after the handler and the requests it has sent, in order.
\<close>

definition handleCreateThread ::
  "string \<Rightarrow> created response \<Rightarrow> thread list response \<Rightarrow> app \<Rightarrow> app \<times> request list" where
  "handleCreateThread ownerToken resp reload st =
     (let st1 = st\<lparr>error := None\<rparr> in
      if \<not> truthyStr (authToken st) then (st1\<lparr>error := Some ''Please sign in to create a thread.''\<rparr>, [])
      else
        (let req = PostThread (bearer (authToken st)) ownerToken in
         case resp of
           NetworkError msg \<Rightarrow> (st1\<lparr>error := Some msg\<rparr>, [req])
         | NotOk \<Rightarrow> (st1\<lparr>error := Some ''Failed to create thread.''\<rparr>, [req])
         | OkNoJson msg \<Rightarrow> (st1\<lparr>error := Some msg\<rparr>, [req])
         | OkJson createdThread \<Rightarrow>
             (let st2 = st1\<lparr>threadTokens :=
                          objSet (threadTokens st1) (Idx (created_id createdThread))
                            (JStr (tokenOf createdThread ownerToken))\<rparr>;
                  (st3, reqs) = loadThreads reload st2
              in (st3, req # reqs))))"

definition handleCreateReply ::
  "int \<Rightarrow> string \<Rightarrow> created response \<Rightarrow> thread list response \<Rightarrow> app \<Rightarrow> app \<times> request list" where
  "handleCreateReply threadId ownerToken resp reload st =
     (let st1 = st\<lparr>error := None\<rparr> in
      if \<not> truthyStr (authToken st) then (st1\<lparr>error := Some ''Please sign in to reply.''\<rparr>, [])
      else
        (let req = PostReply threadId (bearer (authToken st)) ownerToken in
         case resp of
           NetworkError msg \<Rightarrow> (st1\<lparr>error := Some msg\<rparr>, [req])
         | NotOk \<Rightarrow> (st1\<lparr>error := Some ''Failed to create reply.''\<rparr>, [req])
         | OkNoJson msg \<Rightarrow> (st1\<lparr>error := Some msg\<rparr>, [req])
         | OkJson createdReply \<Rightarrow>
             (let st2 = st1\<lparr>replyTokens :=
                          objSet (replyTokens st1) (Idx (created_id createdReply))
                            (JStr (tokenOf createdReply ownerToken))\<rparr>;
                  (st3, reqs) = loadThreads reload st2
              in (st3, req # reqs))))"

text \<open>
  \<^verbatim>\<open>handleDeleteThread\<close> and \<^verbatim>\<open>handleDeleteReply\<close>: they return at once, before
  \<^verbatim>\<open>setError(null)\<close>, when no truthy token is recorded; the body of the response is not read.
\<close>

definition handleDeleteThread ::
  "int \<Rightarrow> unit response \<Rightarrow> thread list response \<Rightarrow> app \<Rightarrow> app \<times> request list" where
  "handleDeleteThread threadId resp reload st =
     (case objGet (threadTokens st) (Idx threadId) of
        None \<Rightarrow> (st, [])
      | Some ownerToken \<Rightarrow>
          if \<not> truthy ownerToken then (st, [])
          else
            (let st1 = st\<lparr>error := None\<rparr>; req = DeleteThread threadId ownerToken in
             case resp of
               NetworkError msg \<Rightarrow> (st1\<lparr>error := Some msg\<rparr>, [req])
             | NotOk \<Rightarrow> (st1\<lparr>error := Some ''Failed to delete thread.''\<rparr>, [req])
             | _ \<Rightarrow>
                 (let st2 = st1\<lparr>threadTokens := objDelete (threadTokens st1) (Idx threadId)\<rparr>;
                      (st3, reqs) = loadThreads reload st2
                  in (st3, req # reqs))))"

definition handleDeleteReply ::
  "int \<Rightarrow> int \<Rightarrow> unit response \<Rightarrow> thread list response \<Rightarrow> app \<Rightarrow> app \<times> request list" where
  "handleDeleteReply threadId replyId resp reload st =
     (case objGet (replyTokens st) (Idx replyId) of
        None \<Rightarrow> (st, [])
      | Some ownerToken \<Rightarrow>
          if \<not> truthy ownerToken then (st, [])
          else
            (let st1 = st\<lparr>error := None\<rparr>; req = DeleteReply threadId replyId ownerToken in
             case resp of
               NetworkError msg \<Rightarrow> (st1\<lparr>error := Some msg\<rparr>, [req])
             | NotOk \<Rightarrow> (st1\<lparr>error := Some ''Failed to delete reply.''\<rparr>, [req])
             | _ \<Rightarrow>
                 (let st2 = st1\<lparr>replyTokens := objDelete (replyTokens st1) (Idx replyId)\<rparr>;
                      (st3, reqs) = loadThreads reload st2
                  in (st3, req # reqs))))"

section \<open>Notions for stating the properties\<close>

text \<open>
  The rendering sequence computed directly, without the intermediate elements; it is shown
  below to be the flattening of what \<open>renderReplies\<close> returns.
\<close>

fun renderSeq ::
  "nat \<Rightarrow> (pkey \<rightharpoonup> reply list) \<Rightarrow> int option \<Rightarrow> nat \<Rightarrow> (reply \<times> nat) list option" where
  "renderSeq 0 grouped parentId depth = None"
| "renderSeq (Suc fuel) grouped parentId depth =
     map_option concat
       (those (map (\<lambda>reply. map_option ((#) (reply, depth))
                      (renderSeq fuel grouped (Some (reply_id reply)) (depth + 1)))
                   (children grouped parentId)))"

text \<open>
  \<open>ancestor replies j r\<close> follows the parent ids upwards from \<open>r\<close>: it is \<open>Some p\<close> when the
  reply reached after \<open>j\<close> steps has parent id \<open>p\<close> (so \<open>Some None\<close> when that reply is
  top-level), and \<open>None\<close> when the chain has ended or dangles before.
\<close>

fun ancestor :: "reply list \<Rightarrow> nat \<Rightarrow> reply \<Rightarrow> int option option" where
  "ancestor replies 0 r = Some (parent_id r)"
| "ancestor replies (Suc j) r =
     (case ancestor replies j r of
        Some (Some i) \<Rightarrow> map_option parent_id (find (\<lambda>q. reply_id q = i) replies)
      | _ \<Rightarrow> None)"

text \<open>The parent chain of a reply ends at a top-level reply.\<close>

definition reachesRoot :: "reply list \<Rightarrow> reply \<Rightarrow> bool" where
  "reachesRoot replies r \<longleftrightarrow> (\<exists>j. ancestor replies j r = Some None)"

text \<open>A request that fails with a non-success status or a transport error.\<close>

definition failed :: "'a response \<Rightarrow> bool" where
  "failed resp = (case resp of NetworkError msg \<Rightarrow> True | NotOk \<Rightarrow> True | _ \<Rightarrow> False)"

text \<open>What the claims call the token maps and the session of a state.\<close>

definition ownership :: "app \<Rightarrow> obj \<times> obj \<times> string option \<times> json" where
  "ownership st = (threadTokens st, replyTokens st, authToken st, authUser st)"

text \<open>Sample data for the concrete instances below.\<close>

definition exampleReply :: "int \<Rightarrow> int option \<Rightarrow> int \<Rightarrow> reply" where
  "exampleReply i p t =
     \<lparr>reply_id = i, thread_id = 1, parent_id = p, body = ''text'', author_name = None,
      is_anonymous = True, created_at = t\<rparr>"

definition exampleThread :: "reply list" where
  "exampleThread =
     [exampleReply 3 None 602, exampleReply 2 (Some 1) 605, exampleReply 1 None 600,
      exampleReply 4 None 602, exampleReply 5 (Some 2) 601]"

definition orphanThread :: "reply list" where
  "orphanThread = [exampleReply 1 None 10, exampleReply 2 (Some 99) 20, exampleReply 3 (Some 2) 30]"

definition loneOrphan :: "reply list" where
  "loneOrphan = [exampleReply 7 (Some 99) 10]"

definition duplicateIdThread :: "reply list" where
  "duplicateIdThread = [exampleReply 1 None 10, exampleReply 1 (Some 1) 20]"

definition duplicateIdOrphanThread :: "reply list" where
  "duplicateIdOrphanThread =
     [exampleReply 2 (Some 99) 5, exampleReply 1 None 10, exampleReply 1 (Some 1) 20]"

definition cyclicThread :: "reply list" where
  "cyclicThread =
     [exampleReply 1 (Some 1) 10, exampleReply 2 (Some 3) 20, exampleReply 3 (Some 2) 30,
      exampleReply 4 None 40]"

definition signedIn :: app where
  "signedIn =
     \<lparr>threads = [], loading = False, error = None,
      threadTokens = [(Idx 1, JStr ''abc123''), (Idx 2, JStr '''')],
      replyTokens = [(Idx 5, JStr ''r5'')],
      authToken = Some ''jwt'',
      authUser = JObj [(Name ''id'', JNum 7), (Name ''username'', JStr ''ann''),
                       (Name ''email'', JStr ''ann@example.org'')]\<rparr>"

definition signedOut :: app where
  "signedOut = signedIn\<lparr>authToken := None, authUser := JNull\<rparr>"

definition tokenButNoUser :: app where
  "tokenButNoUser = signedIn\<lparr>authUser := JNull\<rparr>"

definition corruptStore :: storage where
  "corruptStore =
     \<lparr>threadTokenItem = Some (NotJson ''{not json''), replyTokenItem = None,
      authTokenItem = Some ''jwt'', authUserItem = Some (NotJson ''not json either'')\<rparr>"

definition wrongShapeStore :: storage where
  "wrongShapeStore =
     \<lparr>threadTokenItem = Some (JsonText JNull), replyTokenItem = Some (JsonText (JStr ''ab'')),
      authTokenItem = None, authUserItem = Some (JsonText (JNum 5))\<rparr>"

section \<open>Properties of the grouping\<close>

text \<open>
  The group of a key is the stable sort of the replies of that key, so the children of a
  parent id are the replies naming it, by creation time.
\<close>

lemmas ex_defs = exampleReply_def orphanThread_def loneOrphan_def duplicateIdThread_def
  duplicateIdOrphanThread_def cyclicThread_def exampleThread_def

lemma insertBy_insort_key: "insertBy byCreatedAt x xs = insort_key created_at x xs"
  by (induction xs) (auto simp: byCreatedAt_def)

lemma sortBy_sort_key: "sortBy byCreatedAt xs = sort_key created_at xs"
  by (induction xs) (simp_all add: sortBy_def insertBy_insort_key)

lemma groupLoop_key:
  "groupLoop rs g k =
     (if filter (\<lambda>r. groupKey (parent_id r) = k) rs = [] then g k
      else Some ((case g k of None \<Rightarrow> [] | Some xs \<Rightarrow> xs) @
                 filter (\<lambda>r. groupKey (parent_id r) = k) rs))"
  by (induction rs arbitrary: g) (auto simp: Let_def)

lemma repliesByParent_key:
  "repliesByParent rs k =
     (if filter (\<lambda>r. groupKey (parent_id r) = k) rs = [] then None
      else Some (sort_key created_at (filter (\<lambda>r. groupKey (parent_id r) = k) rs)))"
  by (simp add: repliesByParent_def groupLoop_key sortBy_sort_key)

lemma children_repliesByParent:
  "children (repliesByParent rs) p =
     sort_key created_at (filter (\<lambda>r. parent_id r = p) rs)"
proof -
  have "groupKey (parent_id r) = groupKey p \<longleftrightarrow> parent_id r = p" for r :: reply
    by (auto simp: groupKey_def split: option.splits)
  then show ?thesis
    by (simp add: children_def repliesByParent_key)
qed

lemma repliesByParent_other_key:
  "s \<noteq> ''root'' \<Longrightarrow> repliesByParent rs (Name s) = None"
  by (auto simp: repliesByParent_key filter_empty_conv groupKey_def split: option.splits)

lemma repliesByParent_parent:
  "repliesByParent rs (case p of None \<Rightarrow> Name ''root'' | Some n \<Rightarrow> Idx n) =
     (if filter (\<lambda>r. parent_id r = p) rs = [] then None
      else Some (sort_key created_at (filter (\<lambda>r. parent_id r = p) rs)))"
proof -
  have k: "(case p of None \<Rightarrow> Name ''root'' | Some n \<Rightarrow> Idx n) = groupKey p"
    by (simp add: groupKey_def)
  have "groupKey (parent_id r) = groupKey p \<longleftrightarrow> parent_id r = p" for r :: reply
    by (auto simp: groupKey_def split: option.splits)
  then show ?thesis
    unfolding k by (simp add: repliesByParent_key)
qed

text \<open>
  The rendering sequence is the flattening of the elements. One unfolding of it visits the
  children of the key and, below each, the sequence of that child.
\<close>

lemma those_eq_Some: "those os = Some ys \<longleftrightarrow> os = map Some ys"
  by (induction os arbitrary: ys) (auto split: option.splits)

lemma those_eq_None: "those os = None \<longleftrightarrow> None \<in> set os"
  by (induction os) (auto split: option.splits)

lemma flatten_those:
  "map_option (\<lambda>es. concat (map flatten es)) (those (map (\<lambda>r. map_option (Div r d) (A r)) xs)) =
   map_option concat (those (map (\<lambda>r. map_option ((#) (r, d))
        (map_option (\<lambda>es. concat (map flatten es)) (A r))) xs))"
proof (induction xs)
  case Nil
  show ?case by simp
next
  case (Cons a xs)
  show ?case
  proof (cases "A a")
    case None
    then show ?thesis by simp
  next
    case (Some es)
    show ?thesis
      using Cons.IH Some
      by (cases "those (map (\<lambda>r. map_option (Div r d) (A r)) xs)";
          cases "those (map (\<lambda>r. map_option ((#) (r, d))
                   (map_option (\<lambda>es. concat (map flatten es)) (A r))) xs)")
         simp_all
  qed
qed

lemma renderSeq_flatten:
  "map_option (\<lambda>es. concat (map flatten es)) (renderReplies n g p d) = renderSeq n g p d"
proof (induction n arbitrary: p d)
  case 0
  show ?case by simp
next
  case (Suc n)
  show ?case
    by (simp only: renderReplies.simps renderSeq.simps flatten_those Suc.IH)
qed

lemma renderThread_renderSeq: "renderThread n rs = renderSeq n (repliesByParent rs) None 0"
  by (simp add: renderThread_def renderSeq_flatten)

lemma find_by_id:
  assumes "distinct (map reply_id rs)" "q \<in> set rs"
  shows "find (\<lambda>x. reply_id x = reply_id q) rs = Some q"
  using assms by (induction rs) (auto simp: image_iff)

lemma find_SomeD: "find P xs = Some x \<Longrightarrow> x \<in> set xs \<and> P x"
  by (induction xs) (auto split: if_splits)

lemma ancestor_Suc_iff:
  assumes "distinct (map reply_id rs)"
  shows "ancestor rs (Suc j) q = Some p \<longleftrightarrow>
         (\<exists>r\<in>set rs. parent_id r = p \<and> ancestor rs j q = Some (Some (reply_id r)))"
proof
  assume "ancestor rs (Suc j) q = Some p"
  then obtain i r where i: "ancestor rs j q = Some (Some i)"
    and f: "find (\<lambda>x. reply_id x = i) rs = Some r" and p: "parent_id r = p"
    by (auto split: option.splits)
  from find_SomeD[OF f] i p show "\<exists>r\<in>set rs. parent_id r = p \<and> ancestor rs j q = Some (Some (reply_id r))"
    by auto
next
  assume "\<exists>r\<in>set rs. parent_id r = p \<and> ancestor rs j q = Some (Some (reply_id r))"
  then obtain r where "r \<in> set rs" "parent_id r = p" "ancestor rs j q = Some (Some (reply_id r))"
    by blast
  then show "ancestor rs (Suc j) q = Some p"
    using find_by_id[OF assms, of r] by simp
qed

lemma renderSeq_Suc_Some:
  "renderSeq (Suc n) g p d = Some xs \<longleftrightarrow>
   (\<exists>X. (\<forall>r\<in>set (children g p). renderSeq n g (Some (reply_id r)) (d + 1) = Some (X r)) \<and>
        xs = concat (map (\<lambda>r. (r, d) # X r) (children g p)))"
proof
  assume "renderSeq (Suc n) g p d = Some xs"
  then obtain yss where y: "map (\<lambda>r. map_option ((#) (r, d)) (renderSeq n g (Some (reply_id r)) (d + 1))) (children g p) = map Some yss"
    and xs: "xs = concat yss"
    by (auto simp: those_eq_Some)
  let ?X = "\<lambda>r. the (renderSeq n g (Some (reply_id r)) (d + 1))"
  have a: "\<forall>r\<in>set (children g p). map_option ((#) (r, d)) (renderSeq n g (Some (reply_id r)) (d + 1)) \<noteq> None"
  proof
    fix r assume "r \<in> set (children g p)"
    then have "map_option ((#) (r, d)) (renderSeq n g (Some (reply_id r)) (d + 1)) \<in> set (map Some yss)"
      using y[symmetric] by (simp only: set_map) blast
    then show "map_option ((#) (r, d)) (renderSeq n g (Some (reply_id r)) (d + 1)) \<noteq> None"
      by auto
  qed
  then have b: "\<forall>r\<in>set (children g p). renderSeq n g (Some (reply_id r)) (d + 1) = Some (?X r)"
    by auto
  then have "map (\<lambda>r. map_option ((#) (r, d)) (renderSeq n g (Some (reply_id r)) (d + 1))) (children g p)
     = map Some (map (\<lambda>r. (r, d) # ?X r) (children g p))"
    by simp
  with y have "map Some yss = map Some (map (\<lambda>r. (r, d) # ?X r) (children g p))" by simp
  then have "yss = map (\<lambda>r. (r, d) # ?X r) (children g p)"
    by (simp only: inj_map_eq_map[OF inj_Some])
  with xs have c: "xs = concat (map (\<lambda>r. (r, d) # ?X r) (children g p))"
    by (simp only:)
  show "\<exists>X. (\<forall>r\<in>set (children g p). renderSeq n g (Some (reply_id r)) (d + 1) = Some (X r)) \<and>
        xs = concat (map (\<lambda>r. (r, d) # X r) (children g p))"
    by (rule exI[where x = ?X], rule conjI, rule b, rule c)
next
  assume "\<exists>X. (\<forall>r\<in>set (children g p). renderSeq n g (Some (reply_id r)) (d + 1) = Some (X r)) \<and>
        xs = concat (map (\<lambda>r. (r, d) # X r) (children g p))"
  then obtain X where X: "\<forall>r\<in>set (children g p). renderSeq n g (Some (reply_id r)) (d + 1) = Some (X r)"
    and xs: "xs = concat (map (\<lambda>r. (r, d) # X r) (children g p))" by blast
  from X have "map (\<lambda>r. map_option ((#) (r, d)) (renderSeq n g (Some (reply_id r)) (d + 1))) (children g p)
     = map Some (map (\<lambda>r. (r, d) # X r) (children g p))"
    by simp
  then have "those (map (\<lambda>r. map_option ((#) (r, d)) (renderSeq n g (Some (reply_id r)) (d + 1))) (children g p))
     = Some (map (\<lambda>r. (r, d) # X r) (children g p))"
    by (simp only: those_eq_Some)
  with xs show "renderSeq (Suc n) g p d = Some xs" by simp
qed

text \<open>
  With distinct ids the sequence under a key at depth \<open>d\<close> holds, each once, exactly the
  replies that reach the key after \<open>j\<close> steps upwards, at depth \<open>d + j\<close>.
\<close>

lemma distinct_replies: "distinct (map reply_id rs) \<Longrightarrow> distinct rs"
  by (rule distinct_map[THEN iffD1, THEN conjunct1])

lemma same_id_same_reply:
  "distinct (map reply_id rs) \<Longrightarrow> a \<in> set rs \<Longrightarrow> b \<in> set rs \<Longrightarrow> reply_id a = reply_id b \<Longrightarrow> a = b"
  by (auto simp: distinct_map dest: inj_onD)

lemma renderSeq_char:
  assumes D: "distinct (map reply_id rs)"
  shows "renderSeq n (repliesByParent rs) p d = Some xs \<Longrightarrow>
         distinct xs \<and>
         set xs = {(q, d + j) | q j. q \<in> set rs \<and> ancestor rs j q = Some p}"
proof (induction n arbitrary: p d xs)
  case 0
  then show ?case by simp
next
  case (Suc n)
  let ?g = "repliesByParent rs"
  let ?cs = "children ?g p"
  from Suc.prems obtain X where
    X: "\<forall>r\<in>set ?cs. renderSeq n ?g (Some (reply_id r)) (d + 1) = Some (X r)" and
    xs: "xs = concat (map (\<lambda>r. (r, d) # X r) ?cs)"
    unfolding renderSeq_Suc_Some by blast
  have cs_set: "set ?cs = {r \<in> set rs. parent_id r = p}"
    by (auto simp: children_repliesByParent)
  have cs_dist: "distinct ?cs"
    using distinct_replies[OF D] by (simp add: children_repliesByParent)
  have IHd: "distinct (X r)" and
    IHs: "set (X r) = {(q, d + 1 + j) | q j. q \<in> set rs \<and> ancestor rs j q = Some (Some (reply_id r))}"
    if "r \<in> set ?cs" for r
    using Suc.IH[of "Some (reply_id r)" "d + 1" "X r"] X that by blast+
  have set_xs: "set xs = (\<Union>r\<in>set ?cs. insert (r, d) (set (X r)))"
    by (auto simp: xs)
  have S: "set xs = {(q, d + j) | q j. q \<in> set rs \<and> ancestor rs j q = Some p}" (is "_ = ?R")
  proof (rule set_eqI)
    fix z :: "reply \<times> nat"
    obtain q e where z: "z = (q, e)" by (cases z)
    show "z \<in> set xs \<longleftrightarrow> z \<in> ?R"
    proof
      assume "z \<in> set xs"
      then obtain r where r: "r \<in> set ?cs" and zr: "z = (r, d) \<or> z \<in> set (X r)"
        unfolding set_xs by blast
      from r cs_set have rr: "r \<in> set rs" "parent_id r = p" by auto
      from zr show "z \<in> ?R"
      proof
        assume "z = (r, d)"
        with rr have "z = (r, d + 0) \<and> r \<in> set rs \<and> ancestor rs 0 r = Some p" by simp
        then show ?thesis by blast
      next
        assume "z \<in> set (X r)"
        then obtain q' j where q': "z = (q', d + 1 + j)" "q' \<in> set rs"
          "ancestor rs j q' = Some (Some (reply_id r))"
          unfolding IHs[OF r] by blast
        with rr have "ancestor rs (Suc j) q' = Some p"
          unfolding ancestor_Suc_iff[OF D] by blast
        with q' have "z = (q', d + Suc j) \<and> q' \<in> set rs \<and> ancestor rs (Suc j) q' = Some p"
          by simp
        then show ?thesis by blast
      qed
    next
      assume "z \<in> ?R"
      then obtain j where j: "e = d + j" "q \<in> set rs" "ancestor rs j q = Some p"
        using z by blast
      show "z \<in> set xs"
      proof (cases j)
        case 0
        with j have "q \<in> set ?cs" by (simp add: cs_set)
        with 0 j z show ?thesis unfolding set_xs by auto
      next
        case (Suc j')
        with j have "ancestor rs (Suc j') q = Some p" by simp
        then obtain r where r: "r \<in> set rs" "parent_id r = p"
          "ancestor rs j' q = Some (Some (reply_id r))"
          unfolding ancestor_Suc_iff[OF D] by blast
        then have rc: "r \<in> set ?cs" by (simp add: cs_set)
        have "(q, d + 1 + j') \<in> set (X r)"
          unfolding IHs[OF rc] using j r by blast
        with Suc j z rc show ?thesis unfolding set_xs by auto
      qed
    qed
  qed
  have depth_X: "d < e" if "r \<in> set ?cs" "(q, e) \<in> set (X r)" for r q e
    using that unfolding IHs[OF that(1)] by auto
  have "distinct (concat (map (\<lambda>r. (r, d) # X r) ?cs))"
  proof (rule distinct_concat)
    show "distinct (map (\<lambda>r. (r, d) # X r) ?cs)"
      using cs_dist by (auto simp: distinct_map intro: inj_onI)
  next
    fix ys assume "ys \<in> set (map (\<lambda>r. (r, d) # X r) ?cs)"
    then obtain r where r: "r \<in> set ?cs" "ys = (r, d) # X r" by auto
    with IHd[OF r(1)] depth_X[OF r(1), of r d] show "distinct ys" by auto
  next
    fix ys zs
    assume "ys \<in> set (map (\<lambda>r. (r, d) # X r) ?cs)" "zs \<in> set (map (\<lambda>r. (r, d) # X r) ?cs)"
      and ne: "ys \<noteq> zs"
    then obtain r r' where r: "r \<in> set ?cs" "ys = (r, d) # X r"
      and r': "r' \<in> set ?cs" "zs = (r', d) # X r'" by auto
    with ne have rne: "r \<noteq> r'" by auto
    have ids: "reply_id r \<noteq> reply_id r'"
      using same_id_same_reply[OF D, of r r'] r(1) r'(1) rne cs_set by auto
    have "set (X r) \<inter> set (X r') = {}"
      unfolding IHs[OF r(1)] IHs[OF r'(1)] using ids by auto
    moreover have "(r, d) \<notin> set (X r')" "(r', d) \<notin> set (X r)"
      using depth_X[OF r'(1), of r d] depth_X[OF r(1), of r' d] by auto
    ultimately show "set ys \<inter> set zs = {}"
      using r r' rne by auto
  qed
  with xs S show ?case by simp
qed

text \<open>
  A chain reaches the root key at one distance only, and with distinct ids that distance is
  below the number of replies: this bounds the nested calls.
\<close>

lemma ancestor_None_stays: "ancestor rs j r = None \<Longrightarrow> ancestor rs (j + k) r = None"
  by (induction k) simp_all

lemma ancestor_root_last:
  assumes "ancestor rs j r = Some None" "j < j'"
  shows "ancestor rs j' r = None"
proof -
  from assms(1) have "ancestor rs (Suc j) r = None" by simp
  from ancestor_None_stays[OF this, of "j' - Suc j"] assms(2) show ?thesis by simp
qed

lemma ancestor_root_unique:
  assumes "ancestor rs j r = Some None" "ancestor rs j' r = Some None"
  shows "j = j'"
proof (rule ccontr)
  assume "j \<noteq> j'"
  then have "j < j' \<or> j' < j" by arith
  with ancestor_root_last[OF assms(1), of j'] ancestor_root_last[OF assms(2), of j] assms
  show False by auto
qed

lemma renderSeq_returns:
  assumes D: "distinct (map reply_id rs)"
  shows "(\<forall>r\<in>set rs. \<forall>j\<ge>n. ancestor rs j r \<noteq> Some p) \<Longrightarrow>
         renderSeq (Suc n) (repliesByParent rs) p d \<noteq> None"
proof (induction n arbitrary: p d)
  case 0
  have "parent_id r \<noteq> p" if "r \<in> set rs" for r
    using "0.prems"[rule_format, OF that, of 0] by simp
  then have "\<forall>r\<in>set rs. parent_id r \<noteq> p" by blast
  then have "filter (\<lambda>r. parent_id r = p) rs = []" by (simp add: filter_empty_conv)
  then show ?case by (simp add: children_repliesByParent)
next
  case (Suc n)
  let ?g = "repliesByParent rs"
  have "renderSeq (Suc n) ?g (Some (reply_id c)) (d + 1) \<noteq> None" if c: "c \<in> set (children ?g p)" for c
  proof (rule Suc.IH, intro ballI allI impI)
    fix r j assume r: "r \<in> set rs" and j: "n \<le> j"
    from c have cc: "c \<in> set rs" "parent_id c = p" by (auto simp: children_repliesByParent)
    show "ancestor rs j r \<noteq> Some (Some (reply_id c))"
    proof
      assume "ancestor rs j r = Some (Some (reply_id c))"
      with cc have "ancestor rs (Suc j) r = Some p"
        unfolding ancestor_Suc_iff[OF D] by blast
      moreover from j have "Suc n \<le> Suc j" by simp
      ultimately show False using Suc.prems r by blast
    qed
  qed
  then have "\<forall>c\<in>set (children ?g p). renderSeq (Suc n) ?g (Some (reply_id c)) (d + 1) =
      Some (the (renderSeq (Suc n) ?g (Some (reply_id c)) (d + 1)))"
    by (simp del: renderSeq.simps)
  then have "\<exists>X. (\<forall>c\<in>set (children ?g p). renderSeq (Suc n) ?g (Some (reply_id c)) (d + 1) = Some (X c)) \<and>
      concat (map (\<lambda>r. (r, d) # the (renderSeq (Suc n) ?g (Some (reply_id r)) (d + 1))) (children ?g p)) =
      concat (map (\<lambda>r. (r, d) # X r) (children ?g p))"
    by (intro exI[where x = "\<lambda>c. the (renderSeq (Suc n) ?g (Some (reply_id c)) (d + 1))"] conjI refl)
  then have "renderSeq (Suc (Suc n)) ?g p d =
      Some (concat (map (\<lambda>r. (r, d) # the (renderSeq (Suc n) ?g (Some (reply_id r)) (d + 1))) (children ?g p)))"
    by (rule renderSeq_Suc_Some[THEN iffD2])
  then show ?case by (simp del: renderSeq.simps)
qed

lemma renderSeq_mono:
  "renderSeq n g p d = Some xs \<Longrightarrow> renderSeq (n + k) g p d = Some xs"
proof (induction n arbitrary: p d xs)
  case 0
  then show ?case by simp
next
  case (Suc n)
  from Suc.prems[THEN renderSeq_Suc_Some[THEN iffD1]] obtain X where
    X: "\<forall>r\<in>set (children g p). renderSeq n g (Some (reply_id r)) (d + 1) = Some (X r)" and
    xs: "xs = concat (map (\<lambda>r. (r, d) # X r) (children g p))"
    by blast
  from X Suc.IH have "\<forall>r\<in>set (children g p). renderSeq (n + k) g (Some (reply_id r)) (d + 1) = Some (X r)"
    by blast
  with xs have "\<exists>X. (\<forall>r\<in>set (children g p). renderSeq (n + k) g (Some (reply_id r)) (d + 1) = Some (X r)) \<and>
      xs = concat (map (\<lambda>r. (r, d) # X r) (children g p))"
    by blast
  then have "renderSeq (Suc (n + k)) g p d = Some xs"
    by (rule renderSeq_Suc_Some[THEN iffD2])
  then show ?case by (simp del: renderSeq.simps)
qed

lemma ancestor_periodic:
  "ancestor rs i r = ancestor rs i' r \<Longrightarrow> ancestor rs (i + k) r = ancestor rs (i' + k) r"
  by (induction k) simp_all

lemma ancestor_before_root:
  assumes "ancestor rs j r = Some None" "i < j"
  shows "\<exists>q\<in>set rs. ancestor rs i r = Some (Some (reply_id q))"
proof -
  have "ancestor rs (Suc i) r \<noteq> None"
  proof
    assume "ancestor rs (Suc i) r = None"
    from ancestor_None_stays[OF this, of "j - Suc i"] assms show False by simp
  qed
  then obtain x q where "ancestor rs i r = Some (Some x)" "find (\<lambda>q. reply_id q = x) rs = Some q"
    by (auto split: option.splits)
  with find_SomeD[of "\<lambda>q. reply_id q = x" rs q] show ?thesis by auto
qed

lemma ancestor_inj_before_root:
  assumes root: "ancestor rs j r = Some None"
  shows "inj_on (\<lambda>i. ancestor rs i r) {..<j}"
proof (rule inj_onI)
  fix a b assume a: "a \<in> {..<j}" and b: "b \<in> {..<j}" and eq: "ancestor rs a r = ancestor rs b r"
  have False if lt: "x < y" and y: "y < j" and e: "ancestor rs x r = ancestor rs y r" for x y
  proof -
    from ancestor_periodic[OF e, of "j - y"] y have "ancestor rs (x + (j - y)) r = Some None"
      using root by simp
    from ancestor_root_unique[OF this root] lt y show False by simp
  qed
  from this[of a b] this[of b a] a b eq show "a = b"
    by (cases a b rule: linorder_cases) auto
qed

lemma ancestor_via:
  assumes D: "distinct (map reply_id rs)" and q: "q \<in> set rs"
    and a: "ancestor rs i r = Some (Some (reply_id q))"
  shows "ancestor rs (Suc i + k) r = ancestor rs k q"
proof (induction k)
  case 0
  show ?case using a find_by_id[OF D q] by simp
next
  case (Suc k)
  then show ?case by simp
qed

lemma root_distance_bound:
  assumes D: "distinct (map reply_id rs)" and r: "r \<in> set rs"
    and root: "ancestor rs j r = Some None"
  shows "j < length rs"
proof -
  let ?f = "\<lambda>i. ancestor rs i r"
  let ?S = "(\<lambda>q. Some (Some (reply_id q))) ` set rs"
  have own: "?f i \<noteq> Some (Some (reply_id r))" if "i < j" for i
  proof
    assume "?f i = Some (Some (reply_id r))"
    from ancestor_via[OF D r this, of j] root have "ancestor rs (Suc i + j) r = Some None" by simp
    from ancestor_root_unique[OF this root] show False by simp
  qed
  have "?f ` {..<j} \<subseteq> ?S - {Some (Some (reply_id r))}"
    using ancestor_before_root[OF root] own by auto
  then have "card (?f ` {..<j}) \<le> card (?S - {Some (Some (reply_id r))})"
    by (intro card_mono) auto
  also have "\<dots> < card ?S"
    using r by (intro card_Diff1_less) auto
  also have "\<dots> \<le> card (set rs)" by (rule card_image_le) simp
  also have "\<dots> \<le> length rs" by (rule card_length)
  finally show ?thesis
    using card_image[OF ancestor_inj_before_root[OF root]] by simp
qed

lemma renderThread_returns_bound:
  assumes D: "distinct (map reply_id rs)"
  shows "renderThread (Suc (length rs)) rs \<noteq> None"
proof -
  have "\<forall>r\<in>set rs. \<forall>j\<ge>length rs. ancestor rs j r \<noteq> Some None"
    using root_distance_bound[OF D] by fastforce
  from renderSeq_returns[OF D this] show ?thesis
    unfolding renderThread_renderSeq by simp
qed

lemma renderThread_returns_from:
  assumes D: "distinct (map reply_id rs)" and m: "Suc (length rs) \<le> m"
  shows "renderThread m rs = renderThread (Suc (length rs)) rs" "renderThread m rs \<noteq> None"
proof -
  from renderThread_returns_bound[OF D] obtain xs where
    xs: "renderSeq (Suc (length rs)) (repliesByParent rs) None 0 = Some xs"
    unfolding renderThread_renderSeq by blast
  from m have "Suc (length rs) + (m - Suc (length rs)) = m" by simp
  with renderSeq_mono[OF xs, of "m - Suc (length rs)"]
  have "renderSeq m (repliesByParent rs) None 0 = Some xs" by (simp only:)
  with xs show "renderThread m rs = renderThread (Suc (length rs)) rs" "renderThread m rs \<noteq> None"
    unfolding renderThread_renderSeq by (simp_all only: option.distinct not_False_eq_True)
qed

lemma ancestor_parent:
  assumes D: "distinct (map reply_id rs)" and q: "q \<in> set rs" and p: "parent_id r = Some (reply_id q)"
  shows "ancestor rs (Suc j) r = ancestor rs j q"
proof (induction j)
  case 0
  show ?case using find_by_id[OF D q] p by simp
next
  case (Suc j)
  then show ?case by simp
qed

lemma renderReplies_mono:
  "renderReplies n g p d = Some es \<Longrightarrow> renderReplies (n + k) g p d = Some es"
proof (induction n arbitrary: p d es)
  case 0
  then show ?case by simp
next
  case (Suc n)
  let ?F = "\<lambda>m r. map_option (Div r d) (renderReplies m g (Some (reply_id r)) (d + 1))"
  from Suc.prems have t: "those (map (?F n) (children g p)) = Some es" by simp
  have "?F (n + k) r = ?F n r" if "r \<in> set (children g p)" for r
  proof -
    from t have "None \<notin> set (map (?F n) (children g p))"
      using those_eq_None[of "map (?F n) (children g p)"] by simp
    moreover from that have "?F n r \<in> set (map (?F n) (children g p))"
      by (simp only: set_map) (rule imageI)
    ultimately have "?F n r \<noteq> None" by metis
    then obtain e where e: "renderReplies n g (Some (reply_id r)) (d + 1) = Some e"
      by (cases "renderReplies n g (Some (reply_id r)) (d + 1)") simp_all
    from Suc.IH[OF e] e show ?thesis by (simp only:)
  qed
  then have "map (?F (n + k)) (children g p) = map (?F n) (children g p)"
    by (rule map_cong[OF refl])
  with t have "those (map (?F (n + k)) (children g p)) = Some es" by (simp only:)
  then show ?case by (simp only: renderReplies.simps add_Suc)
qed

lemma renderSeq_parent:
  "renderSeq n (repliesByParent rs) p d = Some xs \<Longrightarrow> (q, e) \<in> set xs \<Longrightarrow>
   q \<in> set rs \<and> (parent_id q = p \<or> (\<exists>c\<in>set rs. parent_id q = Some (reply_id c)))"
proof (induction n arbitrary: p d xs)
  case 0
  then show ?case by simp
next
  case (Suc n)
  let ?g = "repliesByParent rs"
  from Suc.prems(1)[THEN renderSeq_Suc_Some[THEN iffD1]] obtain X where
    X: "\<forall>r\<in>set (children ?g p). renderSeq n ?g (Some (reply_id r)) (d + 1) = Some (X r)" and
    xs: "xs = concat (map (\<lambda>r. (r, d) # X r) (children ?g p))"
    by blast
  from Suc.prems(2) xs obtain r where r: "r \<in> set (children ?g p)"
    and qe: "(q, e) = (r, d) \<or> (q, e) \<in> set (X r)" by auto
  from r have rr: "r \<in> set rs" "parent_id r = p" by (auto simp: children_repliesByParent)
  from qe show ?case
  proof
    assume "(q, e) = (r, d)"
    with rr show ?thesis by simp
  next
    assume "(q, e) \<in> set (X r)"
    from Suc.IH[OF X[rule_format, OF r] this] rr show ?thesis by auto
  qed
qed

lemma renderThread_unique:
  assumes "renderThread m rs = Some a" "renderThread n rs = Some b"
  shows "a = b"
proof -
  from assms(1) have "renderSeq (m + n) (repliesByParent rs) None 0 = Some a"
    unfolding renderThread_renderSeq by (rule renderSeq_mono)
  moreover from assms(2) have "renderSeq (n + m) (repliesByParent rs) None 0 = Some b"
    unfolding renderThread_renderSeq by (rule renderSeq_mono)
  ultimately show ?thesis by (simp add: add.commute)
qed

lemma renderThread_char:
  assumes D: "distinct (map reply_id rs)" and R: "renderThread n rs = Some xs"
  shows "distinct xs" and "(q, e) \<in> set xs \<longleftrightarrow> q \<in> set rs \<and> ancestor rs e q = Some None"
proof -
  from renderSeq_char[OF D R[unfolded renderThread_renderSeq]]
  have d: "distinct xs" and s: "set xs = {(q, 0 + j) | q j. q \<in> set rs \<and> ancestor rs j q = Some None}"
    by blast+
  show "distinct xs" by (rule d)
  show "(q, e) \<in> set xs \<longleftrightarrow> q \<in> set rs \<and> ancestor rs e q = Some None"
    unfolding s by simp
qed

lemma renderThread_distinct_replies:
  assumes D: "distinct (map reply_id rs)" and R: "renderThread n rs = Some xs"
  shows "distinct (map fst xs)"
proof -
  have "inj_on fst (set xs)"
  proof (rule inj_onI)
    fix a b assume a: "a \<in> set xs" and b: "b \<in> set xs" and f: "fst a = fst b"
    obtain q e where qa: "a = (q, e)" by (cases a)
    obtain q' e' where qb: "b = (q', e')" by (cases b)
    from a b qa qb f have "ancestor rs e q = Some None" "ancestor rs e' q = Some None"
      using renderThread_char(2)[OF D R] by auto
    then have "e = e'" by (rule ancestor_root_unique)
    with qa qb f show "a = b" by simp
  qed
  with renderThread_char(1)[OF D R] show ?thesis by (simp add: distinct_map)
qed

lemma renderReplies_Some_of_renderThread:
  "renderThread n rs \<noteq> None \<Longrightarrow> \<exists>es. renderReplies n (repliesByParent rs) None 0 = Some es"
  by (cases "renderReplies n (repliesByParent rs) None 0") (simp_all add: renderThread_def)

lemma duplicate_id_loop:
  "renderSeq n (repliesByParent (xs @ [exampleReply 1 None 10, exampleReply 1 (Some 1) 20])) (Some 1) d = None"
  if "\<forall>x\<in>set xs. parent_id x \<noteq> Some 1" 
  using that
proof (induction n arbitrary: d)
  case 0
  show ?case by simp
next
  case (Suc n)
  then have "filter (\<lambda>r. parent_id r = Some 1) xs = []" by (simp add: filter_empty_conv)
  then have "children (repliesByParent (xs @ [exampleReply 1 None 10, exampleReply 1 (Some 1) 20])) (Some 1)
     = [exampleReply 1 (Some 1) 20]"
    by (simp add: children_repliesByParent exampleReply_def)
  with Suc show ?case by (simp add: exampleReply_def)
qed

section \<open>Properties of objects, storage and handlers\<close>

lemmas store_defs = signedIn_def signedOut_def tokenButNoUser_def corruptStore_def wrongShapeStore_def

text \<open>Reading a property after a write, a delete and \<^verbatim>\<open>Object.fromEntries\<close>.\<close>

lemma objGet_insertKey:
  "k \<notin> fst ` set kvs \<Longrightarrow> objGet (insertKey k v kvs) k' = (if k' = k then Some v else objGet kvs k')"
  by (induction kvs) (auto simp: objGet_def)

lemma objGet_update_other:
  "k' \<noteq> k \<Longrightarrow>
   objGet (map (\<lambda>(k', v'). if k' = k then (k', v) else (k', v')) kvs) k' = objGet kvs k'"
  by (induction kvs) (auto simp: objGet_def)

lemma objGet_update_same:
  "k \<in> fst ` set kvs \<Longrightarrow>
   objGet (map (\<lambda>(k', v'). if k' = k then (k', v) else (k', v')) kvs) k = Some v"
  by (induction kvs) (auto simp: objGet_def)

lemma objGet_objSet: "objGet (objSet kvs k v) k' = (if k' = k then Some v else objGet kvs k')"
proof (cases "k \<in> fst ` set kvs")
  case True
  then show ?thesis
    using objGet_update_other[of k' k v kvs] objGet_update_same[of k kvs v]
    by (simp add: objSet_def)
next
  case False
  then show ?thesis
    using objGet_insertKey[of k kvs v k'] by (simp add: objSet_def)
qed

lemma objGet_objDelete: "objGet (objDelete kvs k) k' = (if k' = k then None else objGet kvs k')"
  by (induction kvs) (auto simp: objGet_def objDelete_def)

lemma objGet_foldl_objSet:
  "objGet (foldl (\<lambda>acc (k, v). objSet acc k v) acc es) k =
     (case map_of (rev es) k of Some v \<Rightarrow> Some v | None \<Rightarrow> objGet acc k)"
proof (induction es arbitrary: acc)
  case Nil
  show ?case by simp
next
  case (Cons e es)
  obtain a b where e: "e = (a, b)" by (cases e)
  show ?case
    by (simp add: e Cons.IH objGet_objSet map_add_def split: option.splits)
qed

lemma objGet_fromEntries:
  assumes "distinct (map fst es)"
  shows "objGet (fromEntries es) k = objGet es k"
proof -
  have "map_of (rev es) k = map_of es k"
  proof (cases "map_of es k")
    case None
    then have "map_of (rev es) k = None" by (simp add: map_of_eq_None_iff)
    with None show ?thesis by simp
  next
    case (Some v)
    with assms have "(k, v) \<in> set (rev es)" by simp
    with assms Some show ?thesis by (simp add: distinct_rev rev_map[symmetric])
  qed
  moreover have "objGet [] k = None" "objGet es k = map_of es k"
    by (simp_all add: objGet_def)
  ultimately show ?thesis
    unfolding fromEntries_def objGet_foldl_objSet by (simp split: option.splits)
qed

lemma canonical_map:
  "\<forall>k\<in>fst ` set kvs. numberKey toNumber k = k \<Longrightarrow>
   map (\<lambda>(id, token). (numberKey toNumber id, token)) kvs = kvs"
  by (induction kvs) auto

lemma readTokenMap_JObj:
  assumes "distinct (map fst kvs)" "\<forall>k\<in>fst ` set kvs. numberKey toNumber k = k"
  shows "\<exists>m. readTokenMap toNumber (Some (JsonText (JObj kvs))) = Inr m \<and> (\<forall>k. objGet m k = objGet kvs k)"
  using assms by (simp add: readTokenMap_def readTokenMap_try_def canonical_map objGet_fromEntries)

lemma set_insertKey: "set (insertKey k v kvs) = insert (k, v) (set kvs)"
proof (induction kvs)
  case Nil
  show ?case by simp
next
  case (Cons e kvs)
  obtain a b where e: "e = (a, b)" by (cases e)
  show ?case
  proof (cases "goesBefore k a")
    case True
    then show ?thesis by (simp add: e)
  next
    case False
    then show ?thesis using Cons.IH by (auto simp: e)
  qed
qed

lemma keys_insertKey: "fst ` set (insertKey k v kvs) = insert k (fst ` set kvs)"
  by (simp add: set_insertKey)

lemma distinct_insertKey:
  "k \<notin> fst ` set kvs \<Longrightarrow> distinct (map fst kvs) \<Longrightarrow> distinct (map fst (insertKey k v kvs))"
proof (induction kvs)
  case Nil
  show ?case by simp
next
  case (Cons e kvs)
  then show ?case
    using keys_insertKey[of k v kvs] by (cases e) (auto simp del: insertKey.simps simp add: insertKey.simps(2)[of k v])
qed

lemma fst_update: "map fst (map (\<lambda>(k', v'). if k' = k then (k', v) else (k', v')) kvs) = map fst kvs"
  by (induction kvs) auto

lemma distinct_objSet:
  "distinct (map fst kvs) \<Longrightarrow> distinct (map fst (objSet kvs k v))"
  using distinct_insertKey[of k kvs v] fst_update[of k v kvs]
  by (simp add: objSet_def del: map_map)

lemma keys_objSet: "fst ` set (objSet kvs k v) = insert k (fst ` set kvs)"
proof -
  have "fst ` set (map (\<lambda>(k', v'). if k' = k then (k', v) else (k', v')) kvs) = set (map fst kvs)"
    unfolding fst_update[of k v kvs, symmetric] by (simp only: set_map)
  then show ?thesis
    by (auto simp: objSet_def keys_insertKey)
qed

text \<open>Reloading the threads touches neither tokens nor session; reading storage is total.\<close>

lemma loadThreads_ownership: "ownership (fst (loadThreads reload st)) = ownership st"
  by (cases reload) (simp_all add: loadThreads_def ownership_def)

lemma loadThreads_requests: "snd (loadThreads reload st) = [GetThreads]"
  by (simp add: loadThreads_def Let_def)

lemma readTokenMap_total: "\<exists>m. readTokenMap toNumber raw = Inr m"
  by (cases "readTokenMap_try toNumber raw") (simp_all add: readTokenMap_def)

lemma readStoredAuthUser_total: "\<exists>u. readStoredAuthUser raw = Inr u"
  by (cases "readStoredAuthUser_try raw") (simp_all add: readStoredAuthUser_def)

lemma readTokenMap_malformed:
  "raw = None \<or> (\<exists>s. raw = Some (NotJson s)) \<Longrightarrow> readTokenMap toNumber raw = Inr []"
  by (auto simp: readTokenMap_def readTokenMap_try_def)

lemma readStoredAuthUser_malformed:
  "raw = None \<or> (\<exists>s. raw = Some (NotJson s)) \<Longrightarrow> readStoredAuthUser raw = Inr JNull"
  by (auto simp: readStoredAuthUser_def readStoredAuthUser_try_def)

lemma initialState_Inr:
  assumes "readTokenMap toNumber (threadTokenItem store) = Inr tt"
    "readTokenMap toNumber (replyTokenItem store) = Inr rt"
    "readStoredAuthUser (authUserItem store) = Inr u"
  shows "initialState toNumber store =
     Inr \<lparr>threads = [], loading = False, error = None, threadTokens = tt,
          replyTokens = rt, authToken = authTokenItem store, authUser = u\<rparr>"
  using assms by (simp add: initialState_def)

lemma initialState_persist:
  assumes "distinct (map fst (threadTokens st))" "distinct (map fst (replyTokens st))"
    "\<forall>k\<in>fst ` set (threadTokens st) \<union> fst ` set (replyTokens st). numberKey toNumber k = k"
  shows "\<exists>st'. initialState toNumber (persist st store) = Inr st' \<and>
           (\<forall>k. objGet (threadTokens st') k = objGet (threadTokens st) k) \<and>
           (\<forall>k. objGet (replyTokens st') k = objGet (replyTokens st) k)"
proof -
  from assms obtain tt where tt: "readTokenMap toNumber (Some (JsonText (JObj (threadTokens st)))) = Inr tt"
    "\<forall>k. objGet tt k = objGet (threadTokens st) k"
    using readTokenMap_JObj[of "threadTokens st" toNumber] by auto
  from assms obtain rt where rt: "readTokenMap toNumber (Some (JsonText (JObj (replyTokens st)))) = Inr rt"
    "\<forall>k. objGet rt k = objGet (replyTokens st) k"
    using readTokenMap_JObj[of "replyTokens st" toNumber] by auto
  obtain u where u: "readStoredAuthUser (authUserItem (persist st store)) = Inr u"
    using readStoredAuthUser_total by blast
  have "initialState toNumber (persist st store) =
     Inr \<lparr>threads = [], loading = False, error = None, threadTokens = tt,
          replyTokens = rt, authToken = authTokenItem (persist st store), authUser = u\<rparr>"
    by (rule initialState_Inr) (simp_all add: persist_def tt rt u[unfolded persist_def, simplified])
  with tt(2) rt(2) show ?thesis by simp
qed

lemma loadThreads_tokens:
  "threadTokens (fst (loadThreads reload st)) = threadTokens st"
  "replyTokens (fst (loadThreads reload st)) = replyTokens st"
  using loadThreads_ownership[of reload st] by (simp_all add: ownership_def)

lemma handleCreateThread_ok:
  assumes "truthyStr (authToken st)"
  shows "threadTokens (fst (handleCreateThread ownerToken (OkJson c) reload st)) =
           objSet (threadTokens st) (Idx (created_id c)) (JStr (tokenOf c ownerToken))"
    "replyTokens (fst (handleCreateThread ownerToken (OkJson c) reload st)) = replyTokens st"
  using assms by (simp_all add: handleCreateThread_def Let_def case_prod_beta loadThreads_tokens)

lemma handleCreateReply_ok:
  assumes "truthyStr (authToken st)"
  shows "replyTokens (fst (handleCreateReply threadId ownerToken (OkJson c) reload st)) =
           objSet (replyTokens st) (Idx (created_id c)) (JStr (tokenOf c ownerToken))"
    "threadTokens (fst (handleCreateReply threadId ownerToken (OkJson c) reload st)) = threadTokens st"
  using assms by (simp_all add: handleCreateReply_def Let_def case_prod_beta loadThreads_tokens)

section \<open>The claims about the author line and the store\<close>

text \<open>
  C10. The author line is \<^verbatim>\<open>Anonymous\<close> whenever the anonymity flag is set, whatever the name;
  without the flag it is the name when that is neither \<^verbatim>\<open>null\<close> nor empty, and \<^verbatim>\<open>Unknown\<close>
  otherwise.
\<close>

theorem formatAuthor_cases:
  "(isAnonymous \<longrightarrow> formatAuthor name isAnonymous = ''Anonymous'') \<and>
   (\<not> isAnonymous \<longrightarrow>
      (\<forall>n. name = Some n \<and> n \<noteq> [] \<longrightarrow> formatAuthor name isAnonymous = n) \<and>
      (name = None \<or> name = Some [] \<longrightarrow> formatAuthor name isAnonymous = ''Unknown''))"
  by (auto simp: formatAuthor_def)

theorem formatAuthor_cases_witness:
  "formatAuthor (Some ''ann'') True = ''Anonymous'' \<and>
   formatAuthor (Some ''ann'') False = ''ann'' \<and>
   formatAuthor None False = ''Unknown'' \<and>
   formatAuthor (Some []) False = ''Unknown''"
  using formatAuthor_cases[of True "Some ''ann''"] formatAuthor_cases[of False "Some ''ann''"]
    formatAuthor_cases[of False None] formatAuthor_cases[of False "Some []"]
  by simp

text \<open>
  C1 (as amended). In \<^verbatim>\<open>App.tsx\<close> the delete capability of a thread id (of a reply id) holds
  exactly when the matching map records a truthy token for the id, that is a non-empty one,
  and a session is active, that is the bearer token is non-empty and a user is held. So it
  fails for an id without a token and whenever no session is active. In the variant without
  accounts it holds exactly when a truthy token is recorded; that variant has no session.
\<close>

theorem canDelete_iff:
  "(canDeleteThread st i \<longleftrightarrow>
      (\<exists>v. objGet (threadTokens st) (Idx i) = Some v \<and> truthy v) \<and>
      (\<exists>t. authToken st = Some t \<and> t \<noteq> []) \<and> truthy (authUser st)) \<and>
   (canDeleteReply st i \<longleftrightarrow>
      (\<exists>v. objGet (replyTokens st) (Idx i) = Some v \<and> truthy v) \<and>
      (\<exists>t. authToken st = Some t \<and> t \<noteq> []) \<and> truthy (authUser st)) \<and>
   (objGet (threadTokens st) (Idx i) = None \<longrightarrow> \<not> canDeleteThread st i) \<and>
   (objGet (replyTokens st) (Idx i) = None \<longrightarrow> \<not> canDeleteReply st i) \<and>
   (\<not> isAuthed st \<longrightarrow> \<not> canDeleteThread st i \<and> \<not> canDeleteReply st i) \<and>
   (canDeleteThread_anon tokens i \<longleftrightarrow> (\<exists>v. objGet tokens (Idx i) = Some v \<and> truthy v)) \<and>
   (canDeleteReply_anon tokens i \<longleftrightarrow> (\<exists>v. objGet tokens (Idx i) = Some v \<and> truthy v))"
  by (auto simp: canDeleteThread_def canDeleteReply_def canDeleteThread_anon_def
      canDeleteReply_anon_def isAuthed_def truthyProp_def truthyStr_def split: option.splits)

theorem canDelete_iff_witness:
  "canDeleteThread signedIn 1 \<and> \<not> canDeleteThread signedIn 3 \<and> \<not> canDeleteThread signedOut 1 \<and>
   canDeleteReply signedIn 5 \<and> \<not> canDeleteReply signedOut 5 \<and>
   canDeleteThread_anon (threadTokens signedOut) 1"
  using canDelete_iff[of signedIn 1 "threadTokens signedOut"] canDelete_iff[of signedIn 3]
    canDelete_iff[of signedOut 1] canDelete_iff[of signedIn 5] canDelete_iff[of signedOut 5]
  by (simp add: store_defs objGet_def isAuthed_def truthyStr_def)

text \<open>
  C1 as stated fails twice: in a state that a reload produces, with a session, an id whose
  recorded token is the empty string cannot be deleted; and the variant without accounts
  grants the capability for a recorded token although no session exists.
\<close>

theorem canDelete_counterexample:
  "initialState (\<lambda>s. Name ''NaN'') (persist signedIn corruptStore) = Inr signedIn \<and>
   isAuthed signedIn \<and> objGet (threadTokens signedIn) (Idx 2) = Some (JStr []) \<and>
   \<not> canDeleteThread signedIn 2 \<and>
   \<not> isAuthed signedOut \<and> canDeleteThread_anon (threadTokens signedOut) 1"
proof -
  have "initialState (\<lambda>s. Name ''NaN'') (persist signedIn corruptStore) = Inr signedIn"
    by code_simp
  then show ?thesis
    by (simp add: store_defs objGet_def isAuthed_def truthyStr_def canDeleteThread_def
        canDeleteThread_anon_def truthyProp_def)
qed

text \<open>
  C6. A create or delete whose request fails with a non-success status or a transport error
  leaves both token maps and the session as they were: a failed create registers no token, a
  failed delete removes none, and the delete capability is what it was.
\<close>

theorem failed_operation_keeps_ownership:
  assumes "failed cresp" "failed dresp"
  shows "ownership (fst (handleCreateThread ownerToken cresp reload st)) = ownership st \<and>
         ownership (fst (handleCreateReply threadId ownerToken cresp reload st)) = ownership st \<and>
         ownership (fst (handleDeleteThread threadId dresp reload st)) = ownership st \<and>
         ownership (fst (handleDeleteReply threadId replyId dresp reload st)) = ownership st \<and>
         canDeleteThread (fst (handleDeleteThread threadId dresp reload st)) i = canDeleteThread st i \<and>
         canDeleteReply (fst (handleDeleteReply threadId replyId dresp reload st)) i = canDeleteReply st i"
proof -
  have ct: "ownership (fst (handleCreateThread ownerToken cresp reload st)) = ownership st"
    using assms(1) by (cases cresp) (simp_all add: failed_def handleCreateThread_def ownership_def Let_def)
  have cr: "ownership (fst (handleCreateReply threadId ownerToken cresp reload st)) = ownership st"
    using assms(1) by (cases cresp) (simp_all add: failed_def handleCreateReply_def ownership_def Let_def)
  have dt: "ownership (fst (handleDeleteThread threadId dresp reload st)) = ownership st"
    using assms(2)
    by (cases dresp) (simp_all add: failed_def handleDeleteThread_def ownership_def Let_def split: option.splits)
  have dr: "ownership (fst (handleDeleteReply threadId replyId dresp reload st)) = ownership st"
    using assms(2)
    by (cases dresp) (simp_all add: failed_def handleDeleteReply_def ownership_def Let_def split: option.splits)
  have "canDeleteThread a i = canDeleteThread b i" "canDeleteReply a i = canDeleteReply b i"
    if "ownership a = ownership b" for a b
    using that by (simp_all add: ownership_def canDeleteThread_def canDeleteReply_def isAuthed_def)
  with ct cr dt dr show ?thesis by blast
qed

theorem failed_operation_keeps_ownership_witness:
  "failed (NotOk :: created response) \<and> failed (NetworkError ''Failed to fetch'' :: unit response) \<and>
   ownership (fst (handleCreateThread ''gen'' NotOk (OkJson []) signedIn)) = ownership signedIn \<and>
   ownership (fst (handleDeleteThread 1 (NetworkError ''Failed to fetch'') (OkJson []) signedIn)) =
     ownership signedIn \<and>
   canDeleteThread (fst (handleDeleteThread 1 (NetworkError ''Failed to fetch'') (OkJson []) signedIn)) 1 \<and>
   error (fst (handleDeleteThread 1 (NetworkError ''Failed to fetch'') (OkJson []) signedIn)) =
     Some ''Failed to fetch''"
proof -
  have f: "failed (NotOk :: created response)" "failed (NetworkError ''Failed to fetch'' :: unit response)"
    by (simp_all add: failed_def)
  have c: "canDeleteThread signedIn 1"
    by (simp add: store_defs objGet_def isAuthed_def truthyStr_def canDeleteThread_def truthyProp_def)
  have e: "error (fst (handleDeleteThread 1 (NetworkError ''Failed to fetch'') (OkJson []) signedIn)) =
     Some ''Failed to fetch''"
    by (simp add: handleDeleteThread_def store_defs objGet_def)
  from failed_operation_keeps_ownership[OF f, of "''gen''" "OkJson []" signedIn 1 1 1] f c e
  show ?thesis by simp
qed

text \<open>
  C7 (as amended). Without a bearer token (\<^verbatim>\<open>null\<close> or empty) create thread and create reply
  send nothing and set the message \<^verbatim>\<open>Please sign in to create a thread.\<close> or
  \<^verbatim>\<open>Please sign in to reply.\<close>; with one they send their \<^verbatim>\<open>POST\<close>. The delete handlers do
  not look at the session: without a truthy owner token for the id they return at once,
  sending nothing and changing nothing, the message included; with one they send their
  \<^verbatim>\<open>DELETE\<close>.
\<close>

theorem create_needs_bearer_delete_needs_owner_token:
  "(\<not> truthyStr (authToken st) \<longrightarrow>
      handleCreateThread ownerToken cresp reload st =
        (st\<lparr>error := Some ''Please sign in to create a thread.''\<rparr>, []) \<and>
      handleCreateReply threadId ownerToken cresp reload st =
        (st\<lparr>error := Some ''Please sign in to reply.''\<rparr>, [])) \<and>
   (truthyStr (authToken st) \<longrightarrow>
      (\<exists>rest. snd (handleCreateThread ownerToken cresp reload st) =
         PostThread (bearer (authToken st)) ownerToken # rest) \<and>
      (\<exists>rest. snd (handleCreateReply threadId ownerToken cresp reload st) =
         PostReply threadId (bearer (authToken st)) ownerToken # rest)) \<and>
   (\<not> truthyProp (objGet (threadTokens st) (Idx threadId)) \<longrightarrow>
      handleDeleteThread threadId dresp reload st = (st, [])) \<and>
   (\<not> truthyProp (objGet (replyTokens st) (Idx replyId)) \<longrightarrow>
      handleDeleteReply threadId replyId dresp reload st = (st, [])) \<and>
   (\<forall>v. objGet (threadTokens st) (Idx threadId) = Some v \<and> truthy v \<longrightarrow>
      (\<exists>rest. snd (handleDeleteThread threadId dresp reload st) = DeleteThread threadId v # rest)) \<and>
   (\<forall>v. objGet (replyTokens st) (Idx replyId) = Some v \<and> truthy v \<longrightarrow>
      (\<exists>rest. snd (handleDeleteReply threadId replyId dresp reload st) =
         DeleteReply threadId replyId v # rest))"
proof (intro conjI impI allI)
  assume "\<not> truthyStr (authToken st)"
  then show "handleCreateThread ownerToken cresp reload st =
        (st\<lparr>error := Some ''Please sign in to create a thread.''\<rparr>, [])"
    "handleCreateReply threadId ownerToken cresp reload st =
        (st\<lparr>error := Some ''Please sign in to reply.''\<rparr>, [])"
    by (simp_all add: handleCreateThread_def handleCreateReply_def)
next
  assume "truthyStr (authToken st)"
  then show "\<exists>rest. snd (handleCreateThread ownerToken cresp reload st) =
         PostThread (bearer (authToken st)) ownerToken # rest"
    "\<exists>rest. snd (handleCreateReply threadId ownerToken cresp reload st) =
         PostReply threadId (bearer (authToken st)) ownerToken # rest"
    by (cases cresp; simp add: handleCreateThread_def handleCreateReply_def Let_def split: prod.splits)+
next
  assume "\<not> truthyProp (objGet (threadTokens st) (Idx threadId))"
  then show "handleDeleteThread threadId dresp reload st = (st, [])"
    by (simp add: handleDeleteThread_def truthyProp_def split: option.splits)
next
  assume "\<not> truthyProp (objGet (replyTokens st) (Idx replyId))"
  then show "handleDeleteReply threadId replyId dresp reload st = (st, [])"
    by (simp add: handleDeleteReply_def truthyProp_def split: option.splits)
next
  fix v assume "objGet (threadTokens st) (Idx threadId) = Some v \<and> truthy v"
  then show "\<exists>rest. snd (handleDeleteThread threadId dresp reload st) = DeleteThread threadId v # rest"
    by (cases dresp; simp add: handleDeleteThread_def Let_def split: prod.splits)
next
  fix v assume "objGet (replyTokens st) (Idx replyId) = Some v \<and> truthy v"
  then show "\<exists>rest. snd (handleDeleteReply threadId replyId dresp reload st) =
         DeleteReply threadId replyId v # rest"
    by (cases dresp; simp add: handleDeleteReply_def Let_def split: prod.splits)
qed

theorem create_needs_bearer_delete_needs_owner_token_witness:
  "handleCreateThread ''gen'' (OkJson \<lparr>created_id = 9, created_owner_token = None\<rparr>) (OkJson []) signedOut =
     (signedOut\<lparr>error := Some ''Please sign in to create a thread.''\<rparr>, []) \<and>
   handleCreateReply 1 ''gen'' NotOk (OkJson []) signedOut =
     (signedOut\<lparr>error := Some ''Please sign in to reply.''\<rparr>, []) \<and>
   handleDeleteThread 3 NotOk (OkJson []) signedIn = (signedIn, []) \<and>
   handleDeleteReply 1 6 NotOk (OkJson []) signedIn = (signedIn, []) \<and>
   (\<exists>rest. snd (handleDeleteThread 1 NotOk (OkJson []) signedIn) =
      DeleteThread 1 (JStr ''abc123'') # rest) \<and>
   (\<exists>rest. snd (handleCreateThread ''gen'' NotOk (OkJson []) signedIn) =
      PostThread ''Bearer jwt'' ''gen'' # rest)"
proof -
  have a: "\<not> truthyStr (authToken signedOut)" "truthyStr (authToken signedIn)"
    "bearer (authToken signedIn) = ''Bearer jwt''"
    by (simp_all add: store_defs truthyStr_def bearer_def)
  have b: "\<not> truthyProp (objGet (threadTokens signedIn) (Idx 3))"
    "\<not> truthyProp (objGet (replyTokens signedIn) (Idx 6))"
    "objGet (threadTokens signedIn) (Idx 1) = Some (JStr ''abc123'') \<and> truthy (JStr ''abc123'')"
    by (simp_all add: store_defs truthyProp_def objGet_def)
  from create_needs_bearer_delete_needs_owner_token
    [where st = signedOut and ownerToken = "''gen''" and reload = "OkJson []"
       and cresp = "OkJson \<lparr>created_id = 9, created_owner_token = None\<rparr>"]
    a(1)
  have 1: "handleCreateThread ''gen'' (OkJson \<lparr>created_id = 9, created_owner_token = None\<rparr>)
      (OkJson []) signedOut = (signedOut\<lparr>error := Some ''Please sign in to create a thread.''\<rparr>, [])"
    by blast
  from create_needs_bearer_delete_needs_owner_token
      [where st = signedOut and ownerToken = "''gen''" and cresp = NotOk and reload = "OkJson []"
         and threadId = 1] a(1)
  have 2: "handleCreateReply 1 ''gen'' NotOk (OkJson []) signedOut =
     (signedOut\<lparr>error := Some ''Please sign in to reply.''\<rparr>, [])"
    by blast
  from create_needs_bearer_delete_needs_owner_token
      [where st = signedIn and reload = "OkJson []" and threadId = 3 and dresp = NotOk] b(1)
  have 3: "handleDeleteThread 3 NotOk (OkJson []) signedIn = (signedIn, [])"
    by blast
  from create_needs_bearer_delete_needs_owner_token
      [where st = signedIn and reload = "OkJson []" and threadId = 1 and replyId = 6 and dresp = NotOk] b(2)
  have 4: "handleDeleteReply 1 6 NotOk (OkJson []) signedIn = (signedIn, [])"
    by blast
  from create_needs_bearer_delete_needs_owner_token
      [where st = signedIn and reload = "OkJson []" and threadId = 1 and dresp = NotOk] b(3)
  have 5: "\<exists>rest. snd (handleDeleteThread 1 NotOk (OkJson []) signedIn) =
      DeleteThread 1 (JStr ''abc123'') # rest"
    by blast
  from create_needs_bearer_delete_needs_owner_token
      [where st = signedIn and ownerToken = "''gen''" and cresp = NotOk and reload = "OkJson []"] a(2,3)
  have 6: "\<exists>rest. snd (handleCreateThread ''gen'' NotOk (OkJson []) signedIn) =
      PostThread ''Bearer jwt'' ''gen'' # rest"
    by simp
  from 1 2 3 4 5 6 show ?thesis by blast
qed

text \<open>
  C7 as stated fails: signed out, deleting a thread whose token is recorded sends the
  \<^verbatim>\<open>DELETE\<close> request; deleting a reply without a token is dropped without any message; and
  with a bearer token but no user, which is no session, create thread sends its \<^verbatim>\<open>POST\<close>.
\<close>

theorem mutations_without_session_counterexample:
  "\<not> isAuthed signedOut \<and>
   handleDeleteThread 1 NotOk (OkJson []) signedOut =
     (signedOut\<lparr>error := Some ''Failed to delete thread.''\<rparr>, [DeleteThread 1 (JStr ''abc123'')]) \<and>
   handleDeleteReply 1 6 NotOk (OkJson []) signedOut = (signedOut, []) \<and>
   error signedOut = None \<and>
   \<not> isAuthed tokenButNoUser \<and>
   snd (handleCreateThread ''gen'' NotOk (OkJson []) tokenButNoUser) =
     [PostThread ''Bearer jwt'' ''gen'']"
  by (simp add: store_defs isAuthed_def truthyStr_def handleDeleteThread_def handleDeleteReply_def
      handleCreateThread_def objGet_def bearer_def)

text \<open>
  C8. After a successful create, writing the state back to storage and building a fresh
  initial state from that storage gives a state in which the token of the created id is
  retrievable under the same id, and every other token is as before. The maps are objects
  (no key twice) whose keys are numbers (\<^verbatim>\<open>Number\<close> maps each key to itself).
\<close>

theorem token_survives_reload:
  assumes auth: "truthyStr (authToken st)"
    and dt: "distinct (map fst (threadTokens st))" and dr: "distinct (map fst (replyTokens st))"
    and canon: "\<forall>k\<in>fst ` set (threadTokens st) \<union> fst ` set (replyTokens st). numberKey toNumber k = k"
  shows "(\<exists>st'. initialState toNumber
                 (persist (fst (handleCreateThread ownerToken (OkJson c) reload st)) store) = Inr st' \<and>
            objGet (threadTokens st') (Idx (created_id c)) = Some (JStr (tokenOf c ownerToken)) \<and>
            (\<forall>k. k \<noteq> Idx (created_id c) \<longrightarrow> objGet (threadTokens st') k = objGet (threadTokens st) k) \<and>
            (\<forall>k. objGet (replyTokens st') k = objGet (replyTokens st) k)) \<and>
         (\<exists>st'. initialState toNumber
                 (persist (fst (handleCreateReply threadId ownerToken (OkJson c) reload st)) store) = Inr st' \<and>
            objGet (replyTokens st') (Idx (created_id c)) = Some (JStr (tokenOf c ownerToken)) \<and>
            (\<forall>k. k \<noteq> Idx (created_id c) \<longrightarrow> objGet (replyTokens st') k = objGet (replyTokens st) k) \<and>
            (\<forall>k. objGet (threadTokens st') k = objGet (threadTokens st) k))"
proof (rule conjI)
  let ?a = "fst (handleCreateThread ownerToken (OkJson c) reload st)"
  note a = handleCreateThread_ok[OF auth, of ownerToken c reload]
  have "numberKey toNumber (Idx (created_id c)) = Idx (created_id c)" by (simp add: numberKey_def)
  with canon have "\<forall>k\<in>fst ` set (threadTokens ?a) \<union> fst ` set (replyTokens ?a). numberKey toNumber k = k"
    unfolding a keys_objSet by blast
  moreover have "distinct (map fst (threadTokens ?a))" "distinct (map fst (replyTokens ?a))"
    unfolding a using dt dr by (simp_all add: distinct_objSet)
  ultimately obtain st' where st': "initialState toNumber (persist ?a store) = Inr st'"
    "\<forall>k. objGet (threadTokens st') k = objGet (threadTokens ?a) k"
    "\<forall>k. objGet (replyTokens st') k = objGet (replyTokens ?a) k"
    using initialState_persist[of ?a toNumber store] by blast
  show "\<exists>st'. initialState toNumber (persist ?a store) = Inr st' \<and>
            objGet (threadTokens st') (Idx (created_id c)) = Some (JStr (tokenOf c ownerToken)) \<and>
            (\<forall>k. k \<noteq> Idx (created_id c) \<longrightarrow> objGet (threadTokens st') k = objGet (threadTokens st) k) \<and>
            (\<forall>k. objGet (replyTokens st') k = objGet (replyTokens st) k)"
    using st' by (intro exI[where x = st']) (simp add: a objGet_objSet)
next
  let ?a = "fst (handleCreateReply threadId ownerToken (OkJson c) reload st)"
  note a = handleCreateReply_ok[OF auth, of threadId ownerToken c reload]
  have "numberKey toNumber (Idx (created_id c)) = Idx (created_id c)" by (simp add: numberKey_def)
  with canon have "\<forall>k\<in>fst ` set (threadTokens ?a) \<union> fst ` set (replyTokens ?a). numberKey toNumber k = k"
    unfolding a keys_objSet by blast
  moreover have "distinct (map fst (threadTokens ?a))" "distinct (map fst (replyTokens ?a))"
    unfolding a using dt dr by (simp_all add: distinct_objSet)
  ultimately obtain st' where st': "initialState toNumber (persist ?a store) = Inr st'"
    "\<forall>k. objGet (threadTokens st') k = objGet (threadTokens ?a) k"
    "\<forall>k. objGet (replyTokens st') k = objGet (replyTokens ?a) k"
    using initialState_persist[of ?a toNumber store] by blast
  show "\<exists>st'. initialState toNumber (persist ?a store) = Inr st' \<and>
            objGet (replyTokens st') (Idx (created_id c)) = Some (JStr (tokenOf c ownerToken)) \<and>
            (\<forall>k. k \<noteq> Idx (created_id c) \<longrightarrow> objGet (replyTokens st') k = objGet (replyTokens st) k) \<and>
            (\<forall>k. objGet (threadTokens st') k = objGet (threadTokens st) k)"
    using st' by (intro exI[where x = st']) (simp add: a objGet_objSet)
qed

theorem token_survives_reload_witness:
  "truthyStr (authToken signedIn) \<and>
   (\<exists>st'. initialState (\<lambda>s. Name ''NaN'') (persist (fst (handleCreateThread ''gen''
          (OkJson \<lparr>created_id = 0, created_owner_token = Some ''tok0''\<rparr>) (OkJson []) signedIn))
        corruptStore) = Inr st' \<and>
      objGet (threadTokens st') (Idx 0) = Some (JStr ''tok0'') \<and>
      objGet (threadTokens st') (Idx 1) = Some (JStr ''abc123'') \<and>
      objGet (replyTokens st') (Idx 5) = Some (JStr ''r5'')) \<and>
   (\<exists>st'. initialState (\<lambda>s. Name ''NaN'') (persist (fst (handleCreateReply 1 ''gen''
          (OkJson \<lparr>created_id = 0, created_owner_token = Some ''tok0''\<rparr>) (OkJson []) signedIn))
        corruptStore) = Inr st' \<and>
      objGet (replyTokens st') (Idx 0) = Some (JStr ''tok0''))"
proof -
  have h: "truthyStr (authToken signedIn)" "distinct (map fst (threadTokens signedIn))"
    "distinct (map fst (replyTokens signedIn))"
    "\<forall>k\<in>fst ` set (threadTokens signedIn) \<union> fst ` set (replyTokens signedIn).
       numberKey (\<lambda>s. Name ''NaN'') k = k"
    by (simp_all add: signedIn_def truthyStr_def numberKey_def)
  have t: "tokenOf \<lparr>created_id = 0, created_owner_token = Some ''tok0''\<rparr> ''gen'' = ''tok0''"
    by (simp add: tokenOf_def)
  have g: "objGet (threadTokens signedIn) (Idx 1) = Some (JStr ''abc123'')"
    "objGet (replyTokens signedIn) (Idx 5) = Some (JStr ''r5'')"
    by (simp_all add: signedIn_def objGet_def)
  from token_survives_reload[OF h, of "''gen''" "\<lparr>created_id = 0, created_owner_token = Some ''tok0''\<rparr>"
      "OkJson []" corruptStore 1] h(1) t g
  show ?thesis by (simp del: distinct.simps) (metis pkey.inject(1) zero_neq_one)
qed

text \<open>
  C9. Reading a token map, reading the stored user and building the initial state never
  raise, whatever storage holds. A token map item that is missing or is not JSON gives the
  empty map; a user item that is missing or is not JSON gives no user, hence no session; a
  missing bearer token gives no session.
\<close>

theorem rehydration_never_raises:
  "(\<exists>m. readTokenMap toNumber raw = Inr m) \<and>
   (\<exists>u. readStoredAuthUser raw = Inr u) \<and>
   (\<exists>st. initialState toNumber store = Inr st \<and>
      (threadTokenItem store = None \<or> (\<exists>s. threadTokenItem store = Some (NotJson s))
         \<longrightarrow> threadTokens st = []) \<and>
      (replyTokenItem store = None \<or> (\<exists>s. replyTokenItem store = Some (NotJson s))
         \<longrightarrow> replyTokens st = []) \<and>
      (authUserItem store = None \<or> (\<exists>s. authUserItem store = Some (NotJson s))
         \<longrightarrow> authUser st = JNull \<and> \<not> isAuthed st) \<and>
      (authTokenItem store = None \<longrightarrow> authToken st = None \<and> \<not> isAuthed st))"
proof (intro conjI)
  show "\<exists>m. readTokenMap toNumber raw = Inr m" by (rule readTokenMap_total)
  show "\<exists>u. readStoredAuthUser raw = Inr u" by (rule readStoredAuthUser_total)
  obtain tt rt u where r: "readTokenMap toNumber (threadTokenItem store) = Inr tt"
    "readTokenMap toNumber (replyTokenItem store) = Inr rt"
    "readStoredAuthUser (authUserItem store) = Inr u"
    using readTokenMap_total readStoredAuthUser_total by blast
  let ?st = "\<lparr>threads = [], loading = False, error = None, threadTokens = tt,
          replyTokens = rt, authToken = authTokenItem store, authUser = u\<rparr>"
  have i: "initialState toNumber store = Inr ?st" by (rule initialState_Inr[OF r])
  have 1: "threadTokenItem store = None \<or> (\<exists>s. threadTokenItem store = Some (NotJson s))
         \<longrightarrow> threadTokens ?st = []"
    using readTokenMap_malformed[of "threadTokenItem store" toNumber] r(1) by auto
  have 2: "replyTokenItem store = None \<or> (\<exists>s. replyTokenItem store = Some (NotJson s))
         \<longrightarrow> replyTokens ?st = []"
    using readTokenMap_malformed[of "replyTokenItem store" toNumber] r(2) by auto
  have 3: "authUserItem store = None \<or> (\<exists>s. authUserItem store = Some (NotJson s))
         \<longrightarrow> authUser ?st = JNull \<and> \<not> isAuthed ?st"
    using readStoredAuthUser_malformed[of "authUserItem store"] r(3) by (auto simp: isAuthed_def)
  have 4: "authTokenItem store = None \<longrightarrow> authToken ?st = None \<and> \<not> isAuthed ?st"
    by (simp add: isAuthed_def truthyStr_def)
  from i 1 2 3 4
  show "\<exists>st. initialState toNumber store = Inr st \<and>
      (threadTokenItem store = None \<or> (\<exists>s. threadTokenItem store = Some (NotJson s))
         \<longrightarrow> threadTokens st = []) \<and>
      (replyTokenItem store = None \<or> (\<exists>s. replyTokenItem store = Some (NotJson s))
         \<longrightarrow> replyTokens st = []) \<and>
      (authUserItem store = None \<or> (\<exists>s. authUserItem store = Some (NotJson s))
         \<longrightarrow> authUser st = JNull \<and> \<not> isAuthed st) \<and>
      (authTokenItem store = None \<longrightarrow> authToken st = None \<and> \<not> isAuthed st)"
    by (intro exI[where x = ?st] conjI)
qed

theorem rehydration_never_raises_witness:
  "initialState (\<lambda>s. Name ''NaN'') corruptStore =
     Inr \<lparr>threads = [], loading = False, error = None, threadTokens = [], replyTokens = [],
          authToken = Some ''jwt'', authUser = JNull\<rparr> \<and>
   readTokenMap_try (\<lambda>s. Name ''NaN'') (threadTokenItem corruptStore) = Inl SyntaxError \<and>
   readTokenMap_try (\<lambda>s. Name ''NaN'') (threadTokenItem wrongShapeStore) = Inl TypeError \<and>
   initialState (\<lambda>s. Name ''NaN'') wrongShapeStore =
     Inr \<lparr>threads = [], loading = False, error = None, threadTokens = [],
          replyTokens = [(Idx 0, JStr ''a''), (Idx 1, JStr ''b'')],
          authToken = None, authUser = JNum 5\<rparr>"
proof -
  let ?n = "\<lambda>s :: string. Name ''NaN''"
  from rehydration_never_raises[of ?n None corruptStore] obtain st where
    st: "initialState ?n corruptStore = Inr st" and
    tt: "threadTokenItem corruptStore = None \<or> (\<exists>s. threadTokenItem corruptStore = Some (NotJson s))
         \<longrightarrow> threadTokens st = []" and
    rt: "replyTokenItem corruptStore = None \<or> (\<exists>s. replyTokenItem corruptStore = Some (NotJson s))
         \<longrightarrow> replyTokens st = []" and
    au: "authUserItem corruptStore = None \<or> (\<exists>s. authUserItem corruptStore = Some (NotJson s))
         \<longrightarrow> authUser st = JNull \<and> \<not> isAuthed st"
    by blast
  have "threadTokens st = []" "replyTokens st = []" "authUser st = JNull"
    using tt rt au by (simp_all add: corruptStore_def)
  moreover have "threads st = []" "loading st = False" "error st = None" "authToken st = Some ''jwt''"
    using st by (auto simp: initialState_def corruptStore_def split: sum.splits)
  ultimately have "st = \<lparr>threads = [], loading = False, error = None, threadTokens = [],
      replyTokens = [], authToken = Some ''jwt'', authUser = JNull\<rparr>"
    by (cases st) simp
  with st have 1: "initialState ?n corruptStore =
     Inr \<lparr>threads = [], loading = False, error = None, threadTokens = [], replyTokens = [],
          authToken = Some ''jwt'', authUser = JNull\<rparr>"
    by simp
  have 2: "readTokenMap_try ?n (threadTokenItem corruptStore) = Inl SyntaxError"
    "readTokenMap_try ?n (threadTokenItem wrongShapeStore) = Inl TypeError"
    by (simp_all add: readTokenMap_try_def store_defs)
  have 3: "initialState ?n wrongShapeStore =
     Inr \<lparr>threads = [], loading = False, error = None, threadTokens = [],
          replyTokens = [(Idx 0, JStr ''a''), (Idx 1, JStr ''b'')],
          authToken = None, authUser = JNum 5\<rparr>"
    by code_simp
  from 1 2 3 show ?thesis by blast
qed

section \<open>The claims about the tree builder\<close>

text \<open>
  C4. The grouping is keyed by parent reference: the replies without a parent are under the
  key \<^verbatim>\<open>"root"\<close>, the replies with parent id \<open>n\<close> under the key of \<open>n\<close>, and there is no
  other key. A parent reference that no reply names has no group. The group of a parent
  reference holds exactly the replies that name it, in non-decreasing order of creation time,
  and replies of equal creation time keep the order they had in the input.
\<close>

theorem repliesByParent_sorted_stable:
  "(\<forall>p key members.
      key = (case p of None \<Rightarrow> Name ''root'' | Some n \<Rightarrow> Idx n) \<and>
      members = filter (\<lambda>r. parent_id r = p) replies \<longrightarrow>
        (members = [] \<longrightarrow> repliesByParent replies key = None) \<and>
        (members \<noteq> [] \<longrightarrow>
           (\<exists>grp. repliesByParent replies key = Some grp \<and>
              mset grp = mset members \<and>
              sorted (map created_at grp) \<and>
              (\<forall>t. filter (\<lambda>r. created_at r = t) grp = filter (\<lambda>r. created_at r = t) members)))) \<and>
   (\<forall>s. s \<noteq> ''root'' \<longrightarrow> repliesByParent replies (Name s) = None)"
proof (intro conjI allI impI)
  fix p key members
  assume a: "key = (case p of None \<Rightarrow> Name ''root'' | Some n \<Rightarrow> Idx n) \<and>
      members = filter (\<lambda>r. parent_id r = p) replies"
  {
    assume "members = []"
    with a show "repliesByParent replies key = None"
      by (simp add: repliesByParent_parent)
  }
  {
    assume ne: "members \<noteq> []"
    let ?grp = "sort_key created_at members"
    from a ne have g: "repliesByParent replies key = Some ?grp"
      by (simp add: repliesByParent_parent)
    have "mset ?grp = mset members" "sorted (map created_at ?grp)" by simp_all
    moreover have "\<forall>t. filter (\<lambda>r. created_at r = t) ?grp = filter (\<lambda>r. created_at r = t) members"
      by (simp add: sort_key_stable)
    ultimately show "\<exists>grp. repliesByParent replies key = Some grp \<and>
              mset grp = mset members \<and>
              sorted (map created_at grp) \<and>
              (\<forall>t. filter (\<lambda>r. created_at r = t) grp = filter (\<lambda>r. created_at r = t) members)"
      using g by blast
  }
next
  fix s :: string assume "s \<noteq> ''root''"
  then show "repliesByParent replies (Name s) = None" by (rule repliesByParent_other_key)
qed

theorem repliesByParent_sorted_stable_witness:
  "repliesByParent exampleThread (Name ''root'') =
     Some [exampleReply 1 None 600, exampleReply 3 None 602, exampleReply 4 None 602] \<and>
   repliesByParent exampleThread (Idx 1) = Some [exampleReply 2 (Some 1) 605] \<and>
   repliesByParent exampleThread (Idx 2) = Some [exampleReply 5 (Some 2) 601] \<and>
   repliesByParent exampleThread (Idx 7) = None \<and>
   repliesByParent exampleThread (Name ''thread'') = None \<and>
   mset [exampleReply 1 None 600, exampleReply 3 None 602, exampleReply 4 None 602] =
     mset (filter (\<lambda>r. parent_id r = None) exampleThread) \<and>
   sorted (map created_at [exampleReply 1 None 600, exampleReply 3 None 602, exampleReply 4 None 602]) \<and>
   filter (\<lambda>r. created_at r = 602)
     [exampleReply 1 None 600, exampleReply 3 None 602, exampleReply 4 None 602] =
     [exampleReply 3 None 602, exampleReply 4 None 602] \<and>
   filter (\<lambda>r. created_at r = 602) (filter (\<lambda>r. parent_id r = None) exampleThread) =
     [exampleReply 3 None 602, exampleReply 4 None 602]"
proof -
  note inst = repliesByParent_sorted_stable[of exampleThread]
  have e: "repliesByParent exampleThread (Name ''root'') =
     Some [exampleReply 1 None 600, exampleReply 3 None 602, exampleReply 4 None 602]"
    "repliesByParent exampleThread (Idx 1) = Some [exampleReply 2 (Some 1) 605]"
    "repliesByParent exampleThread (Idx 2) = Some [exampleReply 5 (Some 2) 601]"
    by (simp_all add: repliesByParent_def sortBy_def byCreatedAt_def groupKey_def exampleThread_def
        exampleReply_def)
  have m: "filter (\<lambda>r. parent_id r = None) exampleThread \<noteq> []"
    "filter (\<lambda>r. parent_id r = Some 7) exampleThread = []"
    by (simp_all add: ex_defs)
  from inst[THEN conjunct1, rule_format, of "Name ''root''" None
      "filter (\<lambda>r. parent_id r = None) exampleThread"] m(1)
  obtain grp where g: "repliesByParent exampleThread (Name ''root'') = Some grp"
    "mset grp = mset (filter (\<lambda>r. parent_id r = None) exampleThread)"
    "sorted (map created_at grp)"
    "\<forall>t. filter (\<lambda>r. created_at r = t) grp =
       filter (\<lambda>r. created_at r = t) (filter (\<lambda>r. parent_id r = None) exampleThread)"
    by auto
  from g(1) e(1) have eq: "grp = [exampleReply 1 None 600, exampleReply 3 None 602, exampleReply 4 None 602]"
    by simp
  from inst[THEN conjunct1, rule_format, of "Idx 7" "Some 7"
      "filter (\<lambda>r. parent_id r = Some 7) exampleThread"] m(2)
  have n7: "repliesByParent exampleThread (Idx 7) = None" by simp
  from inst[THEN conjunct2, rule_format, of "''thread''"]
  have nt: "repliesByParent exampleThread (Name ''thread'') = None" by simp
  have f: "filter (\<lambda>r. created_at r = 602) (filter (\<lambda>r. parent_id r = None) exampleThread) =
     [exampleReply 3 None 602, exampleReply 4 None 602]"
    by (simp add: ex_defs)
  from g(4)[rule_format, of 602] f
  have f': "filter (\<lambda>r. created_at r = 602) grp = [exampleReply 3 None 602, exampleReply 4 None 602]"
    by simp
  from e n7 nt g(2,3) f f' show ?thesis unfolding eq by blast
qed

text \<open>
  C2 (as amended). A reply whose parent id is the id of no reply of the thread is not promoted:
  it occurs at no depth in the rendering sequence, whatever the stack allows. Rendering
  such a collection returns when the reply ids are pairwise distinct, within one nested call
  per reply and one more.
\<close>

theorem orphan_not_rendered:
  assumes "r \<in> set replies" "parent_id r = Some p" "p \<notin> reply_id ` set replies"
  shows "(\<forall>n rendered d. renderThread n replies = Some rendered \<longrightarrow> (r, d) \<notin> set rendered) \<and>
         (distinct (map reply_id replies) \<longrightarrow>
            (\<forall>m\<ge>length replies + 1. renderThread m replies \<noteq> None))"
proof (intro conjI allI impI)
  fix n rendered d
  assume R: "renderThread n replies = Some rendered"
  show "(r, d) \<notin> set rendered"
  proof
    assume "(r, d) \<in> set rendered"
    from renderSeq_parent[OF R[unfolded renderThread_renderSeq] this] assms(2,3)
    show False by auto
  qed
next
  fix m assume "distinct (map reply_id replies)" "length replies + 1 \<le> m"
  then show "renderThread m replies \<noteq> None"
    using renderThread_returns_from(2)[of replies m] by simp
qed

theorem orphan_not_rendered_witness:
  "renderThread 2 orphanThread = Some [(exampleReply 1 None 10, 0)] \<and>
   exampleReply 2 (Some 99) 20 \<in> set orphanThread \<and>
   (exampleReply 2 (Some 99) 20, 0) \<notin> set [(exampleReply 1 None 10, 0 :: nat)] \<and>
   renderThread 4 orphanThread \<noteq> None"
proof -
  have r: "renderThread 2 orphanThread = Some [(exampleReply 1 None 10, 0)]"
    by code_simp
  have h: "exampleReply 2 (Some 99) 20 \<in> set orphanThread"
    "parent_id (exampleReply 2 (Some 99) 20) = Some 99"
    "99 \<notin> reply_id ` set orphanThread"
    "distinct (map reply_id orphanThread)"
    by (simp_all add: ex_defs)
  have l: "length orphanThread + 1 \<le> 4" by (simp add: orphanThread_def)
  from orphan_not_rendered[OF h(1,2,3)] r h l show ?thesis by blast
qed

text \<open>
  C2 as stated fails: a thread whose only reply is an orphan renders as the empty sequence, so
  the orphan is not at depth 0; and a collection with an orphan in which two replies share an
  id, one of them its own child, is rendered by a recursion that never returns.
\<close>

theorem orphan_promotion_counterexample:
  "renderThread 1 loneOrphan = Some [] \<and>
   \<not> (\<exists>n rendered. renderThread n loneOrphan = Some rendered \<and>
         (exampleReply 7 (Some 99) 10, 0) \<in> set rendered) \<and>
   (\<forall>n. renderThread n duplicateIdOrphanThread = None)"
proof (intro conjI allI)
  show r: "renderThread 1 loneOrphan = Some []" by code_simp
  show "\<not> (\<exists>n rendered. renderThread n loneOrphan = Some rendered \<and>
         (exampleReply 7 (Some 99) 10, 0) \<in> set rendered)"
    using renderThread_unique[OF _ r] by fastforce
  fix n
  have c: "children (repliesByParent duplicateIdOrphanThread) None = [exampleReply 1 None 10]"
    by (simp add: children_repliesByParent ex_defs)
  have "duplicateIdOrphanThread = [exampleReply 2 (Some 99) 5] @ [exampleReply 1 None 10, exampleReply 1 (Some 1) 20]"
    by (simp add: ex_defs)
  then have l: "renderSeq m (repliesByParent duplicateIdOrphanThread) (Some 1) d = None" for m d
    using duplicate_id_loop[of "[exampleReply 2 (Some 99) 5]" m d] by (simp add: exampleReply_def)
  show "renderThread n duplicateIdOrphanThread = None"
    unfolding renderThread_renderSeq
    by (cases n) (simp_all add: c l, simp add: exampleReply_def l)
qed

text \<open>
  C3 (as amended). For a collection with pairwise distinct reply ids the expansion from the
  root key at depth 0 returns once the stack allows one nested call per reply and one more,
  and with the same sequence whenever it returns. The sequence
  holds exactly the replies whose parent chain ends at a top-level reply, each once, hence
  every reply once when all chains do. A top-level reply is at depth 0, and a reply with a
  parent id at depth \<open>d > 0\<close> with the reply of that id at depth \<open>d - 1\<close>.
\<close>

theorem renderThread_each_once_with_depth:
  assumes D: "distinct (map reply_id replies)"
  shows "\<exists>rendered.
    (\<forall>m\<ge>length replies + 1. renderThread m replies = Some rendered) \<and>
    (\<forall>m other. renderThread m replies = Some other \<longrightarrow> other = rendered) \<and>
    distinct (map fst rendered) \<and>
    fst ` set rendered = {r \<in> set replies. reachesRoot replies r} \<and>
    ((\<forall>r\<in>set replies. reachesRoot replies r) \<longrightarrow> mset (map fst rendered) = mset replies) \<and>
    (\<forall>(r, d)\<in>set rendered.
       case parent_id r of
         None \<Rightarrow> d = 0
       | Some p \<Rightarrow> 0 < d \<and> (\<exists>q\<in>set replies. reply_id q = p \<and> (q, d - 1) \<in> set rendered))"
proof -
  from renderThread_returns_bound[OF D] obtain xs where
    R: "renderThread (Suc (length replies)) replies = Some xs"
    by blast
  have ret: "\<forall>m\<ge>length replies + 1. renderThread m replies = Some xs"
    using renderThread_returns_from(1)[OF D] R by simp
  note mem = renderThread_char(2)[OF D R]
  have uniq: "\<forall>m other. renderThread m replies = Some other \<longrightarrow> other = xs"
    using renderThread_unique[OF _ R] by blast
  have once: "distinct (map fst xs)"
    by (rule renderThread_distinct_replies[OF D R])
  have which: "fst ` set xs = {r \<in> set replies. reachesRoot replies r}"
  proof (rule set_eqI)
    fix q
    have "q \<in> fst ` set xs \<longleftrightarrow> (\<exists>e. (q, e) \<in> set xs)" by force
    then show "q \<in> fst ` set xs \<longleftrightarrow> q \<in> {r \<in> set replies. reachesRoot replies r}"
      by (auto simp: mem reachesRoot_def)
  qed
  have all: "(\<forall>r\<in>set replies. reachesRoot replies r) \<longrightarrow> mset (map fst xs) = mset replies"
  proof
    assume "\<forall>r\<in>set replies. reachesRoot replies r"
    with which have "set (map fst xs) = set replies" by auto
    with once distinct_replies[OF D] show "mset (map fst xs) = mset replies"
      by (simp only: set_eq_iff_mset_eq_distinct)
  qed
  have depth: "\<forall>(r, d)\<in>set xs.
       case parent_id r of
         None \<Rightarrow> d = 0
       | Some p \<Rightarrow> 0 < d \<and> (\<exists>q\<in>set replies. reply_id q = p \<and> (q, d - 1) \<in> set xs)"
  proof (clarify)
    fix r d assume "(r, d) \<in> set xs"
    then have r: "r \<in> set replies" and a: "ancestor replies d r = Some None"
      by (simp_all add: mem)
    show "case parent_id r of
         None \<Rightarrow> d = 0
       | Some p \<Rightarrow> 0 < d \<and> (\<exists>q\<in>set replies. reply_id q = p \<and> (q, d - 1) \<in> set xs)"
    proof (cases "parent_id r")
      case None
      then have "ancestor replies 0 r = Some None" by simp
      from ancestor_root_unique[OF a this] None show ?thesis by simp
    next
      case (Some p)
      then have "d \<noteq> 0" using a by (cases d) auto
      then obtain d' where d': "d = Suc d'" by (cases d) auto
      have "ancestor replies (Suc 0) r \<noteq> None"
      proof
        assume "ancestor replies (Suc 0) r = None"
        from ancestor_None_stays[OF this, of d'] a d' show False by simp
      qed
      with Some obtain q where f: "find (\<lambda>x. reply_id x = p) replies = Some q"
        by (auto split: option.splits)
      from find_SomeD[OF f] have q: "q \<in> set replies" "reply_id q = p" by simp_all
      with Some have "parent_id r = Some (reply_id q)" by simp
      from ancestor_parent[OF D q(1) this, of d'] a d'
      have "ancestor replies d' q = Some None" by simp
      with q have "(q, d') \<in> set xs" by (simp add: mem)
      with q d' Some show ?thesis by auto
    qed
  qed
  from ret uniq once which all depth show ?thesis by blast
qed

theorem renderThread_each_once_with_depth_witness:
  "distinct (map reply_id exampleThread) \<and>
   renderThread 4 exampleThread = Some
     [(exampleReply 1 None 600, 0), (exampleReply 2 (Some 1) 605, 1),
      (exampleReply 5 (Some 2) 601, 2), (exampleReply 3 None 602, 0),
      (exampleReply 4 None 602, 0)] \<and>
   mset (map fst
     [(exampleReply 1 None 600, 0 :: nat), (exampleReply 2 (Some 1) 605, 1),
      (exampleReply 5 (Some 2) 601, 2), (exampleReply 3 None 602, 0),
      (exampleReply 4 None 602, 0)]) = mset exampleThread \<and>
   (\<exists>q\<in>set exampleThread. reply_id q = 2 \<and>
      (q, 2 - 1) \<in> set
     [(exampleReply 1 None 600, 0 :: nat), (exampleReply 2 (Some 1) 605, 1),
      (exampleReply 5 (Some 2) 601, 2), (exampleReply 3 None 602, 0),
      (exampleReply 4 None 602, 0)])"
proof -
  let ?L = "[(exampleReply 1 None 600, 0 :: nat), (exampleReply 2 (Some 1) 605, 1),
      (exampleReply 5 (Some 2) 601, 2), (exampleReply 3 None 602, 0),
      (exampleReply 4 None 602, 0)]"
  have d: "distinct (map reply_id exampleThread)" by (simp add: ex_defs)
  have e: "renderThread 4 exampleThread = Some ?L" by code_simp
  have a0: "ancestor exampleThread 0 (exampleReply 1 None 600) = Some None"
    "ancestor exampleThread 0 (exampleReply 3 None 602) = Some None"
    "ancestor exampleThread 0 (exampleReply 4 None 602) = Some None"
    "ancestor exampleThread (Suc 0) (exampleReply 2 (Some 1) 605) = Some None"
    "ancestor exampleThread (Suc (Suc 0)) (exampleReply 5 (Some 2) 601) = Some None"
    by (simp_all add: ex_defs)
  have elems: "set exampleThread =
      {exampleReply 3 None 602, exampleReply 2 (Some 1) 605, exampleReply 1 None 600,
       exampleReply 4 None 602, exampleReply 5 (Some 2) 601}"
    by (simp add: exampleThread_def)
  have "reachesRoot exampleThread (exampleReply 1 None 600)"
    "reachesRoot exampleThread (exampleReply 3 None 602)"
    "reachesRoot exampleThread (exampleReply 4 None 602)"
    "reachesRoot exampleThread (exampleReply 2 (Some 1) 605)"
    "reachesRoot exampleThread (exampleReply 5 (Some 2) 601)"
    unfolding reachesRoot_def by (rule exI, rule a0)+
  then have rooted: "\<forall>r\<in>set exampleThread. reachesRoot exampleThread r"
    unfolding elems by blast
  from renderThread_each_once_with_depth[OF d] obtain rendered where
    u: "\<forall>m other. renderThread m exampleThread = Some other \<longrightarrow> other = rendered" and
    m: "(\<forall>r\<in>set exampleThread. reachesRoot exampleThread r) \<longrightarrow>
          mset (map fst rendered) = mset exampleThread" and
    p: "\<forall>(r, d)\<in>set rendered.
       case parent_id r of
         None \<Rightarrow> d = 0
       | Some p \<Rightarrow> 0 < d \<and> (\<exists>q\<in>set exampleThread. reply_id q = p \<and> (q, d - 1) \<in> set rendered)"
    by blast
  from u e have eq: "rendered = ?L" by blast
  from m rooted eq have m': "mset (map fst ?L) = mset exampleThread" by blast
  have "(exampleReply 5 (Some 2) 601, 2) \<in> set ?L" by simp
  with p[unfolded eq] have
    "case parent_id (exampleReply 5 (Some 2) 601) of
         None \<Rightarrow> (2::nat) = 0
       | Some p \<Rightarrow> 0 < (2::nat) \<and> (\<exists>q\<in>set exampleThread. reply_id q = p \<and> (q, 2 - 1) \<in> set ?L)"
    by blast
  then have p': "\<exists>q\<in>set exampleThread. reply_id q = 2 \<and> (q, 2 - 1) \<in> set ?L"
    by (simp add: exampleReply_def)
  from d e m' p' show ?thesis by blast
qed

text \<open>
  C3 as stated fails: of a top-level reply, an orphan and a child of the orphan only the first
  is in the sequence.
\<close>

theorem renderThread_misses_replies_counterexample:
  "renderThread 2 orphanThread = Some [(exampleReply 1 None 10, 0)] \<and>
   \<not> (\<exists>n rendered. renderThread n orphanThread = Some rendered \<and>
         mset (map fst rendered) = mset orphanThread)"
proof (intro conjI)
  show r: "renderThread 2 orphanThread = Some [(exampleReply 1 None 10, 0)]" by code_simp
  show "\<not> (\<exists>n rendered. renderThread n orphanThread = Some rendered \<and>
         mset (map fst rendered) = mset orphanThread)"
  proof
    assume "\<exists>n rendered. renderThread n orphanThread = Some rendered \<and>
         mset (map fst rendered) = mset orphanThread"
    then obtain n rendered where n: "renderThread n orphanThread = Some rendered"
      and m: "mset (map fst rendered) = mset orphanThread" by blast
    from renderThread_unique[OF n r] m have "size (mset [exampleReply 1 None 10]) = size (mset orphanThread)"
      by simp
    then show False by (simp add: orphanThread_def)
  qed
qed

text \<open>
  C5 (as amended). For every collection with pairwise distinct reply ids the expansion
  returns once the stack allows one nested call per reply and one more, and then always the
  same elements; replies on a cycle of parent references are never reached from the root key.
\<close>

theorem renderReplies_returns:
  assumes "distinct (map reply_id replies)"
  shows "\<exists>es. \<forall>m\<ge>length replies + 1. renderReplies m (repliesByParent replies) None 0 = Some es"
proof -
  from renderThread_returns_bound[OF assms, THEN renderReplies_Some_of_renderThread] obtain es where
    es: "renderReplies (Suc (length replies)) (repliesByParent replies) None 0 = Some es" by blast
  have "renderReplies m (repliesByParent replies) None 0 = Some es" if "length replies + 1 \<le> m" for m
    using renderReplies_mono[OF es, of "m - Suc (length replies)"] that by simp
  then show ?thesis by blast
qed

theorem renderReplies_returns_witness:
  "distinct (map reply_id cyclicThread) \<and>
   renderReplies 5 (repliesByParent cyclicThread) None 0 = Some [Div (exampleReply 4 None 40) 0 []] \<and>
   renderReplies 9 (repliesByParent cyclicThread) None 0 = Some [Div (exampleReply 4 None 40) 0 []]"
proof -
  have d: "distinct (map reply_id cyclicThread)" by (simp add: ex_defs)
  have e: "renderReplies 5 (repliesByParent cyclicThread) None 0 = Some [Div (exampleReply 4 None 40) 0 []]"
    by code_simp
  have l: "length cyclicThread + 1 \<le> 5" "length cyclicThread + 1 \<le> 9"
    by (simp_all add: cyclicThread_def)
  from renderReplies_returns[OF d] obtain es where
    "\<forall>m\<ge>length cyclicThread + 1. renderReplies m (repliesByParent cyclicThread) None 0 = Some es"
    by blast
  with l have "renderReplies 5 (repliesByParent cyclicThread) None 0 = Some es"
    "renderReplies 9 (repliesByParent cyclicThread) None 0 = Some es"
    by blast+
  with d e show ?thesis by simp
qed

text \<open>
  C5 as stated fails: with a top-level reply and a second reply of the same id that names this
  id as its parent, the expansion does not return, whatever the stack allows.
\<close>

theorem renderReplies_duplicate_ids_counterexample:
  "\<forall>n. renderReplies n (repliesByParent duplicateIdThread) None 0 = None"
proof
  fix n
  have c: "children (repliesByParent duplicateIdThread) None = [exampleReply 1 None 10]"
    by (simp add: children_repliesByParent ex_defs)
  have l: "renderSeq m (repliesByParent duplicateIdThread) (Some 1) d = None" for m d
    using duplicate_id_loop[of "[]" m d] by (simp add: ex_defs)
  have "renderSeq n (repliesByParent duplicateIdThread) None 0 = None"
    by (cases n) (simp_all add: c l, simp add: exampleReply_def l)
  then show "renderReplies n (repliesByParent duplicateIdThread) None 0 = None"
    by (simp add: renderSeq_flatten[symmetric])
qed

end
